theory Spec2Isabelle
  imports Complex_Main "HOL-Library.AList" "HOL-Library.Char_ord"
    "HOL-Library.List_Lexorder" "HOL-Library.Product_Lexorder"
begin

section \<open>Data model\<close>

text \<open>
  The routing code works on \<^verbatim>\<open>Dict[str, Dict]\<close>: a dictionary from a station name to
  the dictionary of its neighbours and their weights. Python dictionaries keep insertion
  order and the code iterates over them, so both levels are association lists, read
  with \<open>map_of\<close> and written with \<open>AList.update\<close> (which overwrites a present key in
  place and appends an absent one, as a Python \<^verbatim>\<open>dict\<close> does). A weight is a Python
  number (the integer 1 of the hop graph, a float distance in kilometres); it is modelled
  as a real number, so rounding of floating-point addition is not part of the model.
\<close>

type_synonym station = string
type_synonym weight = real
type_synonym adjacency = "(station \<times> weight) list"
type_synonym graph = "(station \<times> adjacency) list"
type_synonym path = "station list"

text \<open>\<^verbatim>\<open>x in graph\<close>\<close>

definition in_graph :: "graph \<Rightarrow> station \<Rightarrow> bool" where
  "in_graph g v = (map_of g v \<noteq> None)"

text \<open>\<^verbatim>\<open>graph.get(node, {})\<close>\<close>

definition graph_get :: "graph \<Rightarrow> station \<Rightarrow> adjacency" where
  "graph_get g v = (case map_of g v of None \<Rightarrow> [] | Some nbrs \<Rightarrow> nbrs)"

text \<open>Iterating over a dictionary yields its keys in insertion order.\<close>

definition neighbors :: "graph \<Rightarrow> station \<Rightarrow> station list" where
  "neighbors g v = map fst (graph_get g v)"

section \<open>routing.py: fewest-stations search\<close>

text \<open>
  The body of \<^verbatim>\<open>for neighbor in graph.get(node, {})\<close> of \<^verbatim>\<open>bfs_shortest_path\<close>:
  a visited neighbour is skipped, the goal ends the whole search with the extended path
  (\<open>Inl\<close>), any other neighbour is marked and its path queued. \<open>Inr\<close> carries the
  visited set and the queue to the next iteration of the \<^verbatim>\<open>while\<close> loop.
\<close>

fun bfs_scan ::
  "station \<Rightarrow> path \<Rightarrow> station list \<Rightarrow> station set \<Rightarrow> path list
    \<Rightarrow> path + (station set \<times> path list)" where
  "bfs_scan goal p [] visited queue = Inr (visited, queue)"
| "bfs_scan goal p (n # ns) visited queue =
     (if n \<in> visited then bfs_scan goal p ns visited queue
      else if n = goal then Inl (p @ [n])
      else bfs_scan goal p ns (insert n visited) (queue @ [p @ [n]]))"

lemma bfs_scan_measure:
  assumes "bfs_scan goal p ns visited queue = Inr (visited', queue')"
    and "set ns \<subseteq> U" and "finite U"
  shows "length queue' + card (U - visited') = length queue + card (U - visited)"
  using assms
proof (induction ns arbitrary: visited queue)
  case Nil
  then show ?case by simp
next
  case (Cons n ns)
  show ?case
  proof (cases "n \<in> visited")
    case True
    with Cons show ?thesis by simp
  next
    case False
    with Cons.prems have ng: "n \<noteq> goal" by auto
    with False Cons.prems
    have "bfs_scan goal p ns (insert n visited) (queue @ [p @ [n]]) = Inr (visited', queue')"
      by simp
    with Cons have step: "length queue' + card (U - visited')
        = length (queue @ [p @ [n]]) + card (U - insert n visited)"
      by simp
    from Cons.prems False have "n \<in> U - visited" by simp
    moreover have "finite (U - visited)" using \<open>finite U\<close> by simp
    ultimately have "card (U - visited) = Suc (card (U - visited - {n}))"
      by (metis card_Suc_Diff1)
    moreover have "U - insert n visited = U - visited - {n}" by auto
    ultimately show ?thesis using step by simp
  qed
qed

text \<open>
  The \<^verbatim>\<open>while queue:\<close> loop. \<^verbatim>\<open>path[-1]\<close> is \<open>last p\<close>: every queued path is
  non-empty, since the queue starts as \<open>[[start]]\<close> and only ever receives
  \<open>p @ [n]\<close>. The loop ends because every iteration removes one path and queues
  exactly as many paths as it marks unvisited stations of the graph.
\<close>

definition all_neighbors :: "graph \<Rightarrow> station set" where
  "all_neighbors g = (\<Union>(v, nbrs) \<in> set g. fst ` set nbrs)"

lemma finite_all_neighbors: "finite (all_neighbors g)"
  by (auto simp: all_neighbors_def)

lemma neighbors_subset: "set (neighbors g v) \<subseteq> all_neighbors g"
proof
  fix n assume "n \<in> set (neighbors g v)"
  then obtain nbrs where "map_of g v = Some nbrs" "n \<in> fst ` set nbrs"
    by (cases "map_of g v") (auto simp: neighbors_def graph_get_def)
  then have "(v, nbrs) \<in> set g" by (simp add: map_of_SomeD)
  with \<open>n \<in> fst ` set nbrs\<close> show "n \<in> all_neighbors g"
    unfolding all_neighbors_def by blast
qed

function bfs_loop :: "graph \<Rightarrow> station \<Rightarrow> station set \<Rightarrow> path list \<Rightarrow> path option" where
  "bfs_loop g goal visited [] = None"
| "bfs_loop g goal visited (p # queue) =
     (case bfs_scan goal p (neighbors g (last p)) visited queue of
        Inl found \<Rightarrow> Some found
      | Inr (visited', queue') \<Rightarrow> bfs_loop g goal visited' queue')"
  by pat_completeness auto
termination
proof (relation "measure (\<lambda>(g, goal, visited, queue).
    length queue + card (all_neighbors g - visited))", goal_cases)
  case 1
  show ?case by simp
next
  case (2 g goal visited p queue x2 visited' queue')
  then have "bfs_scan goal p (neighbors g (last p)) visited queue = Inr (visited', queue')"
    by simp
  from bfs_scan_measure [OF this neighbors_subset finite_all_neighbors]
  show ?case by simp
qed

definition bfs_shortest_path :: "graph \<Rightarrow> station \<Rightarrow> station \<Rightarrow> path option" where
  "bfs_shortest_path g start goal =
     (if start = goal then Some [start]
      else if \<not> in_graph g start \<or> \<not> in_graph g goal then None
      else bfs_loop g goal {start} [[start]])"

section \<open>routing.py: connected component and reachability\<close>

text \<open>The \<^verbatim>\<open>for neighbor in graph.get(node, {})\<close> loop of \<^verbatim>\<open>get_connected_component\<close>.\<close>

fun cc_scan :: "station list \<Rightarrow> station set \<Rightarrow> station list \<Rightarrow> station set \<times> station list" where
  "cc_scan [] visited queue = (visited, queue)"
| "cc_scan (n # ns) visited queue =
     (if n \<notin> visited then cc_scan ns (insert n visited) (queue @ [n])
      else cc_scan ns visited queue)"

lemma cc_scan_measure:
  assumes "cc_scan ns visited queue = (visited', queue')"
    and "set ns \<subseteq> U" and "finite U"
  shows "length queue' + card (U - visited') = length queue + card (U - visited)"
  using assms
proof (induction ns arbitrary: visited queue)
  case Nil
  then show ?case by simp
next
  case (Cons n ns)
  show ?case
  proof (cases "n \<in> visited")
    case True
    with Cons show ?thesis by simp
  next
    case False
    with Cons.prems
    have "cc_scan ns (insert n visited) (queue @ [n]) = (visited', queue')"
      by simp
    with Cons have step: "length queue' + card (U - visited')
        = length (queue @ [n]) + card (U - insert n visited)"
      by simp
    from Cons.prems False have "n \<in> U - visited" by simp
    moreover have "finite (U - visited)" using \<open>finite U\<close> by simp
    ultimately have "card (U - visited) = Suc (card (U - visited - {n}))"
      by (metis card_Suc_Diff1)
    moreover have "U - insert n visited = U - visited - {n}" by auto
    ultimately show ?thesis using step by simp
  qed
qed

function cc_loop :: "graph \<Rightarrow> station set \<Rightarrow> station list \<Rightarrow> station set" where
  "cc_loop g visited [] = visited"
| "cc_loop g visited (node # queue) =
     (case cc_scan (neighbors g node) visited queue of
        (visited', queue') \<Rightarrow> cc_loop g visited' queue')"
  by pat_completeness auto
termination
proof (relation "measure (\<lambda>(g, visited, queue).
    length queue + card (all_neighbors g - visited))", goal_cases)
  case 1
  show ?case by simp
next
  case (2 g visited node queue visited' queue')
  then have "cc_scan (neighbors g node) visited queue = (visited', queue')"
    by simp
  from cc_scan_measure [OF this neighbors_subset finite_all_neighbors]
  show ?case by simp
qed

definition get_connected_component :: "graph \<Rightarrow> station \<Rightarrow> station set" where
  "get_connected_component g start =
     (if \<not> in_graph g start then {} else cc_loop g {start} [start])"

definition is_reachable :: "graph \<Rightarrow> station \<Rightarrow> station \<Rightarrow> bool" where
  "is_reachable g start goal = (goal \<in> get_connected_component g start)"

text \<open>The edges of a graph: \<open>(u, v)\<close> where \<open>v\<close> is a key of \<^verbatim>\<open>graph.get(u, {})\<close>.\<close>

definition edges :: "graph \<Rightarrow> (station \<times> station) set" where
  "edges g = {(u, v). v \<in> set (neighbors g u)}"

section \<open>routing.py: shortest-distance search\<close>

text \<open>
  An entry of the priority queue is the tuple \<^verbatim>\<open>(distance, node, path)\<close>. Python compares
  tuples lexicographically, strings by code point and lists lexicographically, which
  is the order of the type \<open>weight \<times> station \<times> path\<close>. \<^verbatim>\<open>heapq\<close> keeps the list
  as a binary heap; what the search observes of it is that \<^verbatim>\<open>heappop\<close> removes and
  returns the least entry. So the queue is the list of its entries, \<^verbatim>\<open>heappush\<close>
  adds one at the end, and \<open>heappop\<close> takes the least one out. It is only called on a
  non-empty queue.
\<close>

type_synonym entry = "weight \<times> station \<times> path"

fun heappop :: "entry list \<Rightarrow> entry \<times> entry list" where
  "heappop (x # xs) = (let m = fold min xs x in (m, remove1 m (x # xs)))"

definition heappush :: "entry list \<Rightarrow> entry \<Rightarrow> entry list" where
  "heappush pq x = pq @ [x]"

text \<open>\<^verbatim>\<open>weight if weight else 1.0\<close>: a weight of zero is false and is replaced by 1.\<close>

definition edge_distance :: "weight \<Rightarrow> weight" where
  "edge_distance w = (if w \<noteq> 0 then w else 1)"

text \<open>
  The loop \<^verbatim>\<open>for neighbor, weight in graph.get(node, {}).items()\<close>; \<^verbatim>\<open>seen\<close> is not
  changed in it. \<^verbatim>\<open>seen\<close> is only ever read by key, so it is a map.
\<close>

fun relax ::
  "weight \<Rightarrow> path \<Rightarrow> (station \<rightharpoonup> weight) \<Rightarrow> adjacency \<Rightarrow> entry list \<Rightarrow> entry list" where
  "relax distance p seen [] pq = pq"
| "relax distance p seen ((neighbor, w) # items) pq =
     (let new_distance = distance + edge_distance w
      in if (case seen neighbor of None \<Rightarrow> True | Some d \<Rightarrow> new_distance < d)
         then relax distance p seen items (heappush pq (new_distance, neighbor, p @ [neighbor]))
         else relax distance p seen items pq)"

text \<open>
  The \<^verbatim>\<open>while priority_queue:\<close> loop. With a cycle of negative total weight it can run
  forever, so the result is an option: \<open>None\<close> when the loop does not end, otherwise
  \<open>Some\<close> of what \<^verbatim>\<open>dijkstra\<close> returns, which is \<^verbatim>\<open>None\<close> or the pair of the distance
  and the path.
\<close>

partial_function (option) dijkstra_loop ::
  "graph \<Rightarrow> station \<Rightarrow> (station \<rightharpoonup> weight) \<Rightarrow> entry list \<Rightarrow> (weight \<times> path) option option" where
  "dijkstra_loop g goal seen pq =
     (if pq = [] then Some None
      else case heappop pq of
        ((distance, node, p), pq') \<Rightarrow>
          if (case seen node of None \<Rightarrow> False | Some d \<Rightarrow> d \<le> distance)
          then dijkstra_loop g goal seen pq'
          else if node = goal then Some (Some (distance, p))
          else dijkstra_loop g goal (seen(node \<mapsto> distance))
                 (relax distance p (seen(node \<mapsto> distance)) (graph_get g node) pq'))"

declare dijkstra_loop.simps [code]

definition dijkstra :: "graph \<Rightarrow> station \<Rightarrow> station \<Rightarrow> (weight \<times> path) option option" where
  "dijkstra g start goal =
     (if start = goal then Some (Some (0, [start]))
      else if \<not> in_graph g start \<or> \<not> in_graph g goal then Some None
      else dijkstra_loop g goal Map.empty [(0, start, [start])])"

section \<open>routing.py: alternative routes\<close>

text \<open>
  The nested function \<^verbatim>\<open>dfs\<close> of \<^verbatim>\<open>get_all_paths_limited\<close>. It appends the paths
  it finds to one list, so its value is the list of the paths found, in the order of
  the search. The lists \<^verbatim>\<open>path\<close> and \<^verbatim>\<open>visited\<close> are shared and mutated, but every
  recursive call is bracketed by \<^verbatim>\<open>add\<close>/\<^verbatim>\<open>append\<close> before and
  \<^verbatim>\<open>pop\<close>/\<^verbatim>\<open>remove\<close> after for a neighbour that was not in \<^verbatim>\<open>visited\<close>, which
  restores both, so each call receives the extended values and the caller continues
  with its own. The recursion ends because the path grows and is bounded by
  \<^verbatim>\<open>max_length\<close>.
\<close>

function dfs ::
  "graph \<Rightarrow> station \<Rightarrow> int \<Rightarrow> station \<Rightarrow> path \<Rightarrow> station set \<Rightarrow> path list" where
  "dfs g goal max_length node p visited =
     (if int (length p) > max_length then []
      else if node = goal then [p]
      else concat (map (\<lambda>n. if n \<notin> visited
                              then dfs g goal max_length n (p @ [n]) (insert n visited)
                              else [])
                     (neighbors g node)))"
  by pat_completeness auto
termination
  by (relation "measure (\<lambda>(g, goal, max_length, node, p, visited).
        nat (max_length + 1 - int (length p)))") auto

declare dfs.simps [simp del]

definition get_all_paths_limited :: "graph \<Rightarrow> station \<Rightarrow> station \<Rightarrow> int \<Rightarrow> path list" where
  "get_all_paths_limited g start goal max_length =
     (if \<not> in_graph g start \<or> \<not> in_graph g goal then []
      else dfs g goal max_length start [start] {start})"

section \<open>Paths of a graph\<close>

text \<open>
  A list of stations is a path of the graph when every consecutive pair is an edge:
  the second station is a key of \<^verbatim>\<open>graph.get(first, {})\<close>. A path from \<open>a\<close> to \<open>b\<close>
  is a non-empty path that starts with \<open>a\<close> and ends with \<open>b\<close>.
\<close>

fun path_in :: "graph \<Rightarrow> path \<Rightarrow> bool" where
  "path_in g [] = True"
| "path_in g [v] = True"
| "path_in g (u # v # vs) = (v \<in> set (neighbors g u) \<and> path_in g (v # vs))"

definition path_from_to :: "graph \<Rightarrow> station \<Rightarrow> station \<Rightarrow> path \<Rightarrow> bool" where
  "path_from_to g a b p = (p \<noteq> [] \<and> hd p = a \<and> last p = b \<and> path_in g p)"

section \<open>dmrc_routing.py: route finding on the metro graph\<close>

text \<open>
  \<^verbatim>\<open>find_shortest_path_bfs\<close> reads \<^verbatim>\<open>graph[node]\<close>, which raises
  \<^verbatim>\<open>KeyError\<close> for a station that is a neighbour but not a key of the graph; the
  error is a value of the model.
\<close>

datatype py_error = KeyError station

text \<open>The \<^verbatim>\<open>for neighbor in graph[node]\<close> loop: an unvisited neighbour is marked
  and the path extended by it is queued.\<close>

fun fsp_scan :: "path \<Rightarrow> station list \<Rightarrow> station set \<Rightarrow> path list
    \<Rightarrow> station set \<times> path list" where
  "fsp_scan p [] visited queue = (visited, queue)"
| "fsp_scan p (n # ns) visited queue =
     (if n \<notin> visited then fsp_scan p ns (insert n visited) (queue @ [p @ [n]])
      else fsp_scan p ns visited queue)"

lemma fsp_scan_measure:
  assumes "fsp_scan p ns visited queue = (visited', queue')"
    and "set ns \<subseteq> U" and "finite U"
  shows "length queue' + card (U - visited') = length queue + card (U - visited)"
  using assms
proof (induction ns arbitrary: visited queue)
  case Nil
  then show ?case by simp
next
  case (Cons n ns)
  show ?case
  proof (cases "n \<in> visited")
    case True
    with Cons show ?thesis by simp
  next
    case False
    with Cons.prems
    have "fsp_scan p ns (insert n visited) (queue @ [p @ [n]]) = (visited', queue')"
      by simp
    with Cons have step: "length queue' + card (U - visited')
        = length (queue @ [p @ [n]]) + card (U - insert n visited)"
      by simp
    from Cons.prems False have "n \<in> U - visited" by simp
    moreover have "finite (U - visited)" using \<open>finite U\<close> by simp
    ultimately have "card (U - visited) = Suc (card (U - visited - {n}))"
      by (metis card_Suc_Diff1)
    moreover have "U - insert n visited = U - visited - {n}" by auto
    ultimately show ?thesis using step by simp
  qed
qed

lemma map_of_subset_all_neighbors:
  assumes "map_of g v = Some nbrs"
  shows "set (map fst nbrs) \<subseteq> all_neighbors g"
proof -
  from assms have "neighbors g v = map fst nbrs"
    by (simp add: neighbors_def graph_get_def)
  with neighbors_subset [of g v] show ?thesis by simp
qed

function fsp_loop ::
  "graph \<Rightarrow> station \<Rightarrow> station set \<Rightarrow> path list \<Rightarrow> py_error + path option" where
  "fsp_loop g end_node visited [] = Inr None"
| "fsp_loop g end_node visited (p # queue) =
     (if last p = end_node then Inr (Some p)
      else case map_of g (last p) of
        None \<Rightarrow> Inl (KeyError (last p))
      | Some nbrs \<Rightarrow>
          (case fsp_scan p (map fst nbrs) visited queue of
             (visited', queue') \<Rightarrow> fsp_loop g end_node visited' queue'))"
  by pat_completeness auto
termination
proof (relation "measure (\<lambda>(g, end_node, visited, queue).
    length queue + card (all_neighbors g - visited))", goal_cases)
  case 1
  show ?case by simp
next
  case (2 g end_node visited p queue nbrs visited' queue')
  then have "fsp_scan p (map fst nbrs) visited queue = (visited', queue')"
    and "map_of g (last p) = Some nbrs"
    by simp_all
  from fsp_scan_measure [OF this(1) map_of_subset_all_neighbors [OF this(2)]
      finite_all_neighbors]
  show ?case by simp
qed

definition find_shortest_path_bfs ::
  "graph \<Rightarrow> station \<Rightarrow> station \<Rightarrow> py_error + path option" where
  "find_shortest_path_bfs g start_node end_node =
     (if \<not> in_graph g start_node then Inr None
      else if \<not> in_graph g end_node then Inr None
      else if start_node = end_node then Inr (Some [start_node])
      else fsp_loop g end_node {start_node} [[start_node]])"

text \<open>
  \<^verbatim>\<open>STATION_LINE_LOOKUP\<close> maps a station to the sorted list of its lines.
  \<^verbatim>\<open>get_connecting_line\<close> turns the line lists of the two stations into sets,
  intersects them and returns \<^verbatim>\<open>list(common_lines)[0]\<close>: the element that the
  intersection happens to iterate first. Which element that is depends on the hashes of
  the strings and on how the two sets were built from the two lists, so two pairs of
  stations with the same common lines may get different lines. Within one run it is a
  function of the two line lists: the parameter \<open>pick\<close>.
\<close>

type_synonym line = string
type_synonym line_lookup = "(station \<times> line list) list"

definition lookup_get :: "line_lookup \<Rightarrow> station \<Rightarrow> line list" where
  "lookup_get lk s = (case map_of lk s of None \<Rightarrow> [] | Some ls \<Rightarrow> ls)"

definition get_connecting_line ::
  "(line list \<Rightarrow> line list \<Rightarrow> line) \<Rightarrow> line_lookup \<Rightarrow> station \<Rightarrow> station \<Rightarrow> line" where
  "get_connecting_line pick lk station1 station2 =
     (let lines1 = lookup_get lk station1;
          lines2 = lookup_get lk station2;
          common_lines = set lines1 \<inter> set lines2
      in if common_lines = {} then ''Unknown Line'' else pick lines1 lines2)"

text \<open>An iteration order for closed examples: the first line of the first list that is
  also in the second.\<close>

definition first_common :: "line list \<Rightarrow> line list \<Rightarrow> line" where
  "first_common lines1 lines2 = hd (filter (\<lambda>l. l \<in> set lines2) lines1)"

text \<open>
  A step of the navigation guide is the dictionary with the keys \<^verbatim>\<open>start\<close>,
  \<^verbatim>\<open>end\<close>, \<^verbatim>\<open>line\<close> and \<^verbatim>\<open>stops\<close>. \<^verbatim>\<open>path.index(x)\<close> is the position of
  the first occurrence of \<open>x\<close>; it is only ever applied to elements of \<open>path\<close>, so
  the \<^verbatim>\<open>ValueError\<close> of an absent element cannot occur.
\<close>

record route_step =
  step_start :: station
  step_end :: station
  step_line :: line
  step_stops :: int

primrec index_of :: "'a list \<Rightarrow> 'a \<Rightarrow> nat" where
  "index_of [] x = 0"
| "index_of (y # ys) x = (if y = x then 0 else Suc (index_of ys x))"

text \<open>The loop state is (\<open>route_steps\<close>, \<open>start_station\<close>, \<open>current_line\<close>); \<open>segment_at\<close>
  is the loop body at index \<open>i\<close>.\<close>

definition segment_at ::
  "(line list \<Rightarrow> line list \<Rightarrow> line) \<Rightarrow> line_lookup \<Rightarrow> path \<Rightarrow> nat
    \<Rightarrow> route_step list \<times> station \<times> line \<Rightarrow> route_step list \<times> station \<times> line" where
  "segment_at pick lk p i st =
     (case st of (route_steps, start_station, current_line) \<Rightarrow>
        let next_line = get_connecting_line pick lk (p ! i) (p ! (i + 1))
        in if next_line \<noteq> current_line
           then (route_steps @
                   [\<lparr>step_start = start_station, step_end = p ! i, step_line = current_line,
                     step_stops = int (index_of p (p ! i)) - int (index_of p start_station)\<rparr>],
                 p ! i, next_line)
           else (route_steps, start_station, current_line))"

definition format_route_details ::
  "(line list \<Rightarrow> line list \<Rightarrow> line) \<Rightarrow> line_lookup \<Rightarrow> path \<Rightarrow> route_step list" where
  "format_route_details pick lk p =
     (if length p < 2 then []
      else case fold (segment_at pick lk p) [1 ..< length p - 1]
                  ([], p ! 0, get_connecting_line pick lk (p ! 0) (p ! 1)) of
        (route_steps, start_station, current_line) \<Rightarrow>
          route_steps @
            [\<lparr>step_start = start_station, step_end = last p, step_line = current_line,
              step_stops = int (length p) - 1 - int (index_of p start_station)\<rparr>])"

text \<open>
  \<^verbatim>\<open>find_route\<close> returns a dictionary: either the single key \<^verbatim>\<open>error\<close> or the six
  keys of a route. The count of interchanges is a Python integer.
\<close>

record route =
  source :: station
  destination :: station
  total_stations :: nat
  interchanges :: int
  route_path :: path
  steps :: "route_step list"

datatype route_result = RouteError string | Route route

definition find_route ::
  "(line list \<Rightarrow> line list \<Rightarrow> line) \<Rightarrow> line_lookup \<Rightarrow> graph \<Rightarrow> station \<Rightarrow> station
    \<Rightarrow> py_error + route_result" where
  "find_route pick lk g src dst =
     (case find_shortest_path_bfs g src dst of
        Inl e \<Rightarrow> Inl e
      | Inr None \<Rightarrow> Inr (RouteError (''No route found between '' @ src @ '' and '' @ dst))
      | Inr (Some p) \<Rightarrow>
          if p = [] then Inr (RouteError (''No route found between '' @ src @ '' and '' @ dst))
          else
            let route_steps = format_route_details pick lk p
            in Inr (Route \<lparr>source = src, destination = dst, total_stations = length p,
                           interchanges = int (length route_steps) - 1,
                           route_path = p, steps = route_steps\<rparr>))"

section \<open>dmrc_graph.py: the hop graph\<close>

text \<open>
  A record of \<^verbatim>\<open>STATION_DATASET\<close>; \<^verbatim>\<open>build_metro_graph\<close> reads its keys
  \<^verbatim>\<open>name\<close> and \<^verbatim>\<open>neighbors\<close>, \<^verbatim>\<open>get_station_line_map\<close> its key \<^verbatim>\<open>line\<close>.
\<close>

record station_record =
  rec_name :: station
  rec_line :: line
  rec_neighbors :: "station list"

text \<open>\<^verbatim>\<open>if s not in graph: graph[s] = {}\<close>\<close>

definition ensure_node :: "graph \<Rightarrow> station \<Rightarrow> graph" where
  "ensure_node g s = (if in_graph g s then g else AList.update s [] g)"

text \<open>\<^verbatim>\<open>graph[a][b] = w\<close> on a \<^verbatim>\<open>defaultdict(dict)\<close>: reading \<^verbatim>\<open>graph[a]\<close>
  creates the empty dictionary for an absent key.\<close>

definition set_edge :: "graph \<Rightarrow> station \<Rightarrow> station \<Rightarrow> weight \<Rightarrow> graph" where
  "set_edge g a b w = AList.update a (AList.update b w (graph_get g a)) g"

text \<open>The inner loop \<^verbatim>\<open>for neighbor in record['neighbors']\<close>.\<close>

fun add_neighbors :: "graph \<Rightarrow> station \<Rightarrow> station list \<Rightarrow> graph" where
  "add_neighbors g s [] = g"
| "add_neighbors g s (n # ns) =
     add_neighbors (set_edge (ensure_node (set_edge g s n 1) n) n s 1) s ns"

definition build_metro_graph :: "station_record list \<Rightarrow> graph" where
  "build_metro_graph dataset =
     fold (\<lambda>r g. add_neighbors (ensure_node g (rec_name r)) (rec_name r) (rec_neighbors r))
       dataset []"

section \<open>station_loader.py: the distance graph\<close>

text \<open>
  \<^verbatim>\<open>haversine_km\<close>, over the reals. \<^verbatim>\<open>math.radians\<close> multiplies by \<open>pi / 180\<close>.
\<close>

definition radians :: "real \<Rightarrow> real" where
  "radians x = x * pi / 180"

definition haversine_km :: "real \<Rightarrow> real \<Rightarrow> real \<Rightarrow> real \<Rightarrow> real" where
  "haversine_km a_lat a_lon b_lat b_lon =
     (let R = 6371;
          lat1 = radians a_lat; lon1 = radians a_lon;
          lat2 = radians b_lat; lon2 = radians b_lon;
          dlat = lat2 - lat1;
          dlon = lon2 - lon1;
          a = (sin (dlat / 2))\<^sup>2 + cos lat1 * cos lat2 * (sin (dlon / 2))\<^sup>2;
          c = 2 * arcsin (sqrt a)
      in R * c)"

text \<open>
  An entry of \<^verbatim>\<open>self.stations\<close>: the line list and the coordinates, each of which may
  be \<^verbatim>\<open>None\<close> (the keys \<^verbatim>\<open>name\<close> and \<^verbatim>\<open>meta\<close> play no part in the graph).
\<close>

record station_info =
  info_lines :: "line list"
  info_lat :: "real option"
  info_lon :: "real option"

type_synonym stations_table = "(station \<times> station_info) list"

definition has_coords :: "stations_table \<Rightarrow> station \<Rightarrow> bool" where
  "has_coords st s =
     (case map_of st s of
        None \<Rightarrow> False
      | Some i \<Rightarrow> info_lat i \<noteq> None \<and> info_lon i \<noteq> None)"

definition station_distance :: "stations_table \<Rightarrow> station \<Rightarrow> station \<Rightarrow> real" where
  "station_distance st a b =
     (case (map_of st a, map_of st b) of
        (Some i, Some j) \<Rightarrow>
          haversine_km (the (info_lat i)) (the (info_lon i)) (the (info_lat j)) (the (info_lon j))
      | _ \<Rightarrow> 1)"

text \<open>\<^verbatim>\<open>_add_edge\<close>: the distance is computed once and stored in both directions.
  \<open>station_distance\<close> is only read where both stations have both coordinates.\<close>

definition add_edge :: "stations_table \<Rightarrow> graph \<Rightarrow> station \<Rightarrow> station \<Rightarrow> graph" where
  "add_edge st g a b =
     (if map_of st a = None \<or> map_of st b = None then g
      else
        let d = (if has_coords st a \<and> has_coords st b then station_distance st a b else 1)
        in set_edge (set_edge g a b d) b a d)"

text \<open>
  \<^verbatim>\<open>_build_graph\<close>, one line of \<^verbatim>\<open>lines_index\<close> at a time. \<open>remdups_first\<close> is the
  comprehension that keeps the first occurrence of every station. A line with enough
  coordinates links consecutive stations; any other line links every station that has
  coordinates to its two nearest ones on the line (\<^verbatim>\<open>distances.sort()\<close> orders the
  pairs of distance and name).
\<close>

fun remdups_first :: "'a list \<Rightarrow> 'a list \<Rightarrow> 'a list" where
  "remdups_first seen [] = []"
| "remdups_first seen (x # xs) =
     (if x \<in> set seen then remdups_first seen xs else x # remdups_first (x # seen) xs)"

definition nearest_two :: "stations_table \<Rightarrow> station list \<Rightarrow> station \<Rightarrow> station list" where
  "nearest_two st ordered s =
     map snd (take 2 (sort
       (map (\<lambda>t. (station_distance st s t, t))
          (filter (\<lambda>t. \<not> (s = t \<or> \<not> has_coords st t)) ordered))))"

definition line_edges :: "stations_table \<Rightarrow> station list \<Rightarrow> (station \<times> station) list" where
  "line_edges st line_stations =
     (let ordered = remdups_first [] line_stations;
          coords_count = length (filter (has_coords st) ordered)
      in if length ordered \<ge> 2 \<and> coords_count \<ge> max 2 (length ordered div 3)
         then zip ordered (tl ordered)
         else concat (map (\<lambda>s. map (\<lambda>t. (s, t)) (nearest_two st ordered s))
                        (filter (has_coords st) ordered)))"

definition build_graph :: "stations_table \<Rightarrow> (line \<times> station list) list \<Rightarrow> graph" where
  "build_graph st lines_index =
     fold (\<lambda>(l, line_stations) g. fold (\<lambda>(a, b) g'. add_edge st g' a b)
             (line_edges st line_stations) g)
       lines_index []"

section \<open>dmrc_helpers.py: station names\<close>























section \<open>Invariants of the fewest-stations search\<close>

text \<open>
  A path is a shortest one to its last station when no path from \<open>start\<close> to that
  station has fewer stations. \<open>loop_inv\<close> holds at the head of the \<^verbatim>\<open>while\<close> loop of
  \<^verbatim>\<open>bfs_shortest_path\<close>: every queued path is a shortest path to a visited station, the
  queue is ordered by length with at most two lengths in it, and every visited
  station either ends a queued path or has all its neighbours visited. \<open>scan_inv\<close> is
  the same while the neighbours \<open>ns\<close> of the end of the dequeued path \<open>p\<close> remain to be
  looked at.
\<close>

definition shortest_to :: "graph \<Rightarrow> station \<Rightarrow> path \<Rightarrow> bool" where
  "shortest_to g start p =
     (path_from_to g start (last p) p
      \<and> (\<forall>q. path_from_to g start (last p) q \<longrightarrow> length p \<le> length q))"

definition scan_inv ::
  "graph \<Rightarrow> station \<Rightarrow> station \<Rightarrow> path \<Rightarrow> station list \<Rightarrow> station set \<Rightarrow> path list \<Rightarrow> bool" where
  "scan_inv g start goal p ns visited queue =
     (start \<in> visited \<and> goal \<notin> visited
      \<and> shortest_to g start p \<and> last p \<in> visited
      \<and> (\<forall>q\<in>set queue. shortest_to g start q \<and> last q \<in> visited
            \<and> length p \<le> length q \<and> length q \<le> length p + 1)
      \<and> sorted (map length queue)
      \<and> (\<forall>u\<in>visited. u = last p \<or> u \<in> last ` set queue \<or> set (neighbors g u) \<subseteq> visited)
      \<and> set (neighbors g (last p)) \<subseteq> visited \<union> set ns
      \<and> set ns \<subseteq> set (neighbors g (last p)))"

definition loop_inv ::
  "graph \<Rightarrow> station \<Rightarrow> station \<Rightarrow> station set \<Rightarrow> path list \<Rightarrow> bool" where
  "loop_inv g start goal visited queue =
     (start \<in> visited \<and> goal \<notin> visited
      \<and> (\<forall>q\<in>set queue. shortest_to g start q \<and> last q \<in> visited)
      \<and> sorted (map length queue)
      \<and> (\<forall>q\<in>set queue. length q \<le> length (hd queue) + 1)
      \<and> (\<forall>u\<in>visited. u \<in> last ` set queue \<or> set (neighbors g u) \<subseteq> visited))"

text \<open>The example graph of the tests of routing.py.\<close>

definition test_graph :: graph where
  "test_graph =
     [(''A'', [(''B'', 1.5), (''C'', 2.0)]),
      (''B'', [(''A'', 1.5), (''D'', 1.2)]),
      (''C'', [(''A'', 2.0), (''E'', 1.8)]),
      (''D'', [(''B'', 1.2), (''E'', 0.9)]),
      (''E'', [(''C'', 1.8), (''D'', 0.9)])]"

section \<open>Symmetry of a graph\<close>

text \<open>\<open>edge_weight g a b\<close> is \<^verbatim>\<open>graph[a][b]\<close> where station \<open>b\<close> is recorded as a
  neighbour of station \<open>a\<close>, and \<open>None\<close> where it is not.\<close>

definition edge_weight :: "graph \<Rightarrow> station \<Rightarrow> station \<Rightarrow> weight option" where
  "edge_weight g a b = (case map_of g a of None \<Rightarrow> None | Some nbrs \<Rightarrow> map_of nbrs b)"

definition symmetric :: "graph \<Rightarrow> bool" where
  "symmetric g = (\<forall>a b w. edge_weight g a b = Some w \<longrightarrow> edge_weight g b a = Some w)"

section \<open>Weights of paths and invariants of the shortest-distance search\<close>

text \<open>
  \<open>path_weight\<close> is the sum of the stored weights \<^verbatim>\<open>graph[u][v]\<close> along a path;
  \<open>path_distance\<close> is the sum that \<^verbatim>\<open>dijkstra\<close> accumulates, with
  \<open>edge_distance\<close> applied to every stored weight. A graph is a dictionary of
  dictionaries when no adjacency list has a key twice.
\<close>

definition stored_weight :: "graph \<Rightarrow> station \<Rightarrow> station \<Rightarrow> weight" where
  "stored_weight g u v = (case edge_weight g u v of None \<Rightarrow> 0 | Some w \<Rightarrow> w)"

fun path_weight :: "graph \<Rightarrow> path \<Rightarrow> weight" where
  "path_weight g [] = 0"
| "path_weight g [v] = 0"
| "path_weight g (u # v # vs) = stored_weight g u v + path_weight g (v # vs)"

fun path_distance :: "graph \<Rightarrow> path \<Rightarrow> weight" where
  "path_distance g [] = 0"
| "path_distance g [v] = 0"
| "path_distance g (u # v # vs) =
     edge_distance (stored_weight g u v) + path_distance g (v # vs)"

definition dict_graph :: "graph \<Rightarrow> bool" where
  "dict_graph g = (\<forall>(v, nbrs)\<in>set g. distinct (map fst nbrs))"

definition nonneg_weights :: "graph \<Rightarrow> bool" where
  "nonneg_weights g = (\<forall>(v, nbrs)\<in>set g. \<forall>(u, w)\<in>set nbrs. 0 \<le> w)"

definition positive_weights :: "graph \<Rightarrow> bool" where
  "positive_weights g = (\<forall>(v, nbrs)\<in>set g. \<forall>(u, w)\<in>set nbrs. 0 < w)"

text \<open>
  The invariant of the \<^verbatim>\<open>while\<close> loop of \<^verbatim>\<open>dijkstra\<close>: every entry of the queue
  carries a path from \<open>start\<close> to its node and the distance of that path; a recorded
  distance is at most the distance of every path to that station and at most every
  queued distance; for every edge that leaves a recorded station the target is recorded
  or queued at no more than the distance through that edge; \<open>start\<close> is recorded or
  queued at distance 0; and the goal is not recorded.
\<close>

definition dij_inv ::
  "graph \<Rightarrow> station \<Rightarrow> station \<Rightarrow> (station \<rightharpoonup> weight) \<Rightarrow> entry list \<Rightarrow> bool" where
  "dij_inv g start goal seen pq =
     ((\<forall>d n p. (d, n, p) \<in> set pq \<longrightarrow> path_from_to g start n p \<and> d = path_distance g p)
      \<and> (\<forall>v dv. seen v = Some dv \<longrightarrow>
            (\<forall>q. path_from_to g start v q \<longrightarrow> dv \<le> path_distance g q))
      \<and> (\<forall>d n p v dv. (d, n, p) \<in> set pq \<longrightarrow> seen v = Some dv \<longrightarrow> dv \<le> d)
      \<and> (\<forall>v dv u w. seen v = Some dv \<longrightarrow> (u, w) \<in> set (graph_get g v) \<longrightarrow>
            seen u \<noteq> None \<or> (\<exists>d p. (d, u, p) \<in> set pq \<and> d \<le> dv + edge_distance w))
      \<and> (seen start \<noteq> None \<or> (\<exists>d p. (d, start, p) \<in> set pq \<and> d \<le> 0))
      \<and> seen goal = None)"

text \<open>The number of edges of a path whose stored weight is zero, and a graph with a
  cycle of negative weight beside an edge of weight zero.\<close>

fun zero_edges :: "graph \<Rightarrow> path \<Rightarrow> nat" where
  "zero_edges g [] = 0"
| "zero_edges g [v] = 0"
| "zero_edges g (u # v # vs) =
     (if stored_weight g u v = 0 then 1 else 0) + zero_edges g (v # vs)"

definition zero_edge_graph :: graph where
  "zero_edge_graph =
     [(''A'', [(''B'', 0), (''C'', 2.5)]), (''B'', [(''A'', 0), (''C'', 0.4)]),
      (''C'', [(''A'', 2.5), (''B'', 0.4)])]"

definition negative_cycle_graph :: graph where
  "negative_cycle_graph =
     [(''A'', [(''B'', 0), (''C'', - 1)]), (''B'', []), (''C'', [(''C'', - 1)])]"

text \<open>The states that the search on \<open>negative_cycle_graph\<close> from "A" to "B" runs
  through from its third iteration on: the recorded distance of "C" and the queued
  distance of "C" decrease by one in every iteration, while the entry of "B" waits.\<close>

definition cycle_seen :: "nat \<Rightarrow> (station \<rightharpoonup> weight)" where
  "cycle_seen k = [''A'' \<mapsto> 0, ''C'' \<mapsto> - real k]"

definition cycle_queue :: "nat \<Rightarrow> entry list" where
  "cycle_queue k =
     [(1, ''B'', [''A'', ''B'']), (- real k - 1, ''C'', ''A'' # replicate (Suc k) ''C'')]"

section \<open>Segments of a route, by position\<close>

text \<open>
  The positions \<open>1 \<le> i < k\<close> of a path at which the connecting line of the edge leaving
  \<open>p ! i\<close> differs from that of the edge arriving there; the segment between two
  positions of the path; and the position at which the segment open at position \<open>k\<close>
  began.
\<close>

definition line_changes :: "(line list \<Rightarrow> line list \<Rightarrow> line) \<Rightarrow> line_lookup \<Rightarrow> path \<Rightarrow> nat \<Rightarrow> nat list" where
  "line_changes pick lk p k =
     filter (\<lambda>i. get_connecting_line pick lk (p ! i) (p ! (i + 1))
                \<noteq> get_connecting_line pick lk (p ! (i - 1)) (p ! i)) [1 ..< k]"

definition segment_between :: "(line list \<Rightarrow> line list \<Rightarrow> line) \<Rightarrow> line_lookup \<Rightarrow> path \<Rightarrow> nat \<times> nat \<Rightarrow> route_step" where
  "segment_between pick lk p ab =
     (case ab of (a, b) \<Rightarrow>
        \<lparr>step_start = p ! a, step_end = p ! b,
         step_line = get_connecting_line pick lk (p ! (b - 1)) (p ! b),
         step_stops = int b - int a\<rparr>)"

definition segment_origin :: "(line list \<Rightarrow> line list \<Rightarrow> line) \<Rightarrow> line_lookup \<Rightarrow> path \<Rightarrow> nat \<Rightarrow> nat" where
  "segment_origin pick lk p k = last (0 # line_changes pick lk p k)"

definition example_lookup :: line_lookup where
  "example_lookup =
     [(''S1'', [''L1'']), (''S2'', [''L1'', ''L3'']), (''S3'', [''L1'', ''L2'']),
      (''S4'', [''L2'']), (''S5'', [''L2'']), (''S6'', [''L3''])]"

section \<open>Absent endpoints and the trivial route\<close>

lemma bfs_shortest_path_absent:
  assumes "start \<noteq> goal" and "\<not> in_graph g start \<or> \<not> in_graph g goal"
  shows "bfs_shortest_path g start goal = None"
  using assms by (simp add: bfs_shortest_path_def)

lemma find_shortest_path_bfs_absent:
  assumes "\<not> in_graph g start \<or> \<not> in_graph g goal"
  shows "find_shortest_path_bfs g start goal = Inr None"
  using assms by (auto simp: find_shortest_path_bfs_def)

text \<open>
  C5 (code defect). The claim: whenever start or goal is not a vertex of the graph, also when
  start equals goal, both fewest-hops searches return \<^verbatim>\<open>None\<close>.
  \<^verbatim>\<open>find_shortest_path_bfs\<close> of dmrc_routing.py validates both endpoints first and does
  so. \<^verbatim>\<open>bfs_shortest_path\<close> of routing.py tests \<^verbatim>\<open>start == goal\<close> before it looks
  at the graph: for the station "Ghost Station", which is not in the graph, it returns
  the one-station path, where its sibling returns \<^verbatim>\<open>None\<close>.
\<close>

theorem bfs_shortest_path_same_unchecked:
  "bfs_shortest_path g v v = Some [v]
   \<and> (\<not> in_graph g v \<longrightarrow> find_shortest_path_bfs g v v = Inr None)"
  by (simp add: bfs_shortest_path_def find_shortest_path_bfs_def)

theorem bfs_shortest_path_ghost_station:
  "\<not> in_graph [(''S1'', [(''S2'', 1)]), (''S2'', [(''S1'', 1)])] ''Ghost Station''
   \<and> bfs_shortest_path [(''S1'', [(''S2'', 1)]), (''S2'', [(''S1'', 1)])]
        ''Ghost Station'' ''Ghost Station'' = Some [''Ghost Station'']
   \<and> find_shortest_path_bfs [(''S1'', [(''S2'', 1)]), (''S2'', [(''S1'', 1)])]
        ''Ghost Station'' ''Ghost Station'' = Inr None"
  using bfs_shortest_path_same_unchecked
    [of "[(''S1'', [(''S2'', 1)]), (''S2'', [(''S1'', 1)])]" "''Ghost Station''"]
  by (simp add: in_graph_def)

lemma format_route_details_single: "format_route_details pick lk [v] = []"
  by (simp add: format_route_details_def)

text \<open>
  C4 (code defect). The claim: a one-station path has zero segments and the route built from
  it reports zero interchanges. \<^verbatim>\<open>format_route_details([v])\<close> is the empty list, but
  \<^verbatim>\<open>find_route\<close> computes the interchanges as \<^verbatim>\<open>len(steps) - 1\<close>, which is \<open>-1\<close>
  for the empty list of steps: the route from "Rajiv Chowk" to itself reports \<open>-1\<close>
  interchanges.
\<close>

theorem find_route_same_station_interchanges:
  "format_route_details pick lk [''Rajiv Chowk''] = []
   \<and> find_route pick lk
        [(''Rajiv Chowk'', [(''Patel Chowk'', 1)]), (''Patel Chowk'', [(''Rajiv Chowk'', 1)])]
        ''Rajiv Chowk'' ''Rajiv Chowk''
      = Inr (Route \<lparr>source = ''Rajiv Chowk'', destination = ''Rajiv Chowk'',
                     total_stations = 1, interchanges = - 1,
                     route_path = [''Rajiv Chowk''], steps = []\<rparr>)"
  by (simp add: find_route_def find_shortest_path_bfs_def in_graph_def
      format_route_details_def)

section \<open>The builders produce symmetric graphs\<close>

lemma edge_weight_set_edge:
  "edge_weight (set_edge g a b w) x y = (if x = a \<and> y = b then Some w else edge_weight g x y)"
  by (auto simp: edge_weight_def set_edge_def update_conv' graph_get_def split: option.splits)

lemma edge_weight_ensure_node: "edge_weight (ensure_node g s) x y = edge_weight g x y"
  by (auto simp: edge_weight_def ensure_node_def update_conv' in_graph_def split: option.splits)

lemma edge_weight_set_edge_hit: "edge_weight (set_edge g a b w) a b = Some w"
  by (subst edge_weight_set_edge) (rule if_P, blast)

lemma edge_weight_set_edge_miss:
  "x \<noteq> a \<or> y \<noteq> b \<Longrightarrow> edge_weight (set_edge g a b w) x y = edge_weight g x y"
  by (subst edge_weight_set_edge) (rule if_not_P, blast)

lemma symmetric_both_ways:
  assumes sym: "symmetric g"
    and ab: "edge_weight g' a b = Some w"
    and ba: "edge_weight g' b a = Some w"
    and other: "\<And>x y. x \<noteq> a \<or> y \<noteq> b \<Longrightarrow> x \<noteq> b \<or> y \<noteq> a
      \<Longrightarrow> edge_weight g' x y = edge_weight g x y"
  shows "symmetric g'"
  unfolding symmetric_def
proof (intro allI impI)
  fix x y v
  assume h: "edge_weight g' x y = Some v"
  consider "x = a \<and> y = b" | "x = b \<and> y = a" | "x \<noteq> a \<or> y \<noteq> b" "x \<noteq> b \<or> y \<noteq> a"
    by blast
  then show "edge_weight g' y x = Some v"
  proof cases
    case 1
    with h ab ba show ?thesis by metis
  next
    case 2
    with h ab ba show ?thesis by metis
  next
    case 3
    then have "edge_weight g x y = Some v" using h other by metis
    with sym have "edge_weight g y x = Some v" unfolding symmetric_def by blast
    moreover from 3 have "y \<noteq> a \<or> x \<noteq> b" "y \<noteq> b \<or> x \<noteq> a" by blast+
    ultimately show ?thesis using other by metis
  qed
qed

lemma symmetric_set_both:
  assumes "symmetric g"
  shows "symmetric (set_edge (set_edge g a b w) b a w)"
proof (rule symmetric_both_ways [OF assms])
  show "edge_weight (set_edge (set_edge g a b w) b a w) b a = Some w"
    by (rule edge_weight_set_edge_hit)
  show "edge_weight (set_edge (set_edge g a b w) b a w) a b = Some w"
  proof (cases "a = b")
    case True
    show ?thesis unfolding True by (rule edge_weight_set_edge_hit)
  next
    case False
    then have "edge_weight (set_edge (set_edge g a b w) b a w) a b
        = edge_weight (set_edge g a b w) a b"
      by (intro edge_weight_set_edge_miss) blast
    then show ?thesis by (simp only: edge_weight_set_edge_hit)
  qed
  show "edge_weight (set_edge (set_edge g a b w) b a w) x y = edge_weight g x y"
    if "x \<noteq> a \<or> y \<noteq> b" "x \<noteq> b \<or> y \<noteq> a" for x y
    using that by (simp only: edge_weight_set_edge_miss)
qed

lemma symmetric_hop:
  assumes "symmetric g"
  shows "symmetric (set_edge (ensure_node (set_edge g a b w) b) b a w)"
proof (rule symmetric_both_ways [OF assms])
  show "edge_weight (set_edge (ensure_node (set_edge g a b w) b) b a w) b a = Some w"
    by (rule edge_weight_set_edge_hit)
  show "edge_weight (set_edge (ensure_node (set_edge g a b w) b) b a w) a b = Some w"
  proof (cases "a = b")
    case True
    show ?thesis unfolding True by (rule edge_weight_set_edge_hit)
  next
    case False
    then have "edge_weight (set_edge (ensure_node (set_edge g a b w) b) b a w) a b
        = edge_weight (ensure_node (set_edge g a b w) b) a b"
      by (intro edge_weight_set_edge_miss) blast
    then show ?thesis by (simp only: edge_weight_ensure_node edge_weight_set_edge_hit)
  qed
  show "edge_weight (set_edge (ensure_node (set_edge g a b w) b) b a w) x y
      = edge_weight g x y"
    if "x \<noteq> a \<or> y \<noteq> b" "x \<noteq> b \<or> y \<noteq> a" for x y
    using that by (simp only: edge_weight_set_edge_miss edge_weight_ensure_node)
qed

lemma symmetric_ensure_node: "symmetric g \<Longrightarrow> symmetric (ensure_node g s)"
  unfolding symmetric_def edge_weight_ensure_node .

lemma symmetric_add_neighbors: "symmetric g \<Longrightarrow> symmetric (add_neighbors g s ns)"
  by (induction ns arbitrary: g) (simp_all add: symmetric_hop)

lemma symmetric_empty: "symmetric []"
  by (simp add: symmetric_def edge_weight_def)

lemma symmetric_build_fold:
  "symmetric g \<Longrightarrow> symmetric (fold (\<lambda>r g. add_neighbors (ensure_node g (rec_name r)) (rec_name r) (rec_neighbors r)) ds g)"
  by (induction ds arbitrary: g) (simp_all add: symmetric_add_neighbors symmetric_ensure_node)

lemma symmetric_build_metro_graph: "symmetric (build_metro_graph ds)"
  unfolding build_metro_graph_def by (rule symmetric_build_fold [OF symmetric_empty])

lemma symmetric_add_edge: "symmetric g \<Longrightarrow> symmetric (add_edge st g a b)"
  by (simp add: add_edge_def Let_def symmetric_set_both)

lemma symmetric_add_edges:
  "symmetric g \<Longrightarrow> symmetric (fold (\<lambda>(a, b) g'. add_edge st g' a b) es g)"
  by (induction es arbitrary: g) (auto simp: symmetric_add_edge)

lemma symmetric_build_graph_fold:
  "symmetric g \<Longrightarrow> symmetric (fold (\<lambda>(l, line_stations) g. fold (\<lambda>(a, b) g'. add_edge st g' a b)
             (line_edges st line_stations) g) li g)"
  by (induction li arbitrary: g) (auto simp: symmetric_add_edges)

lemma symmetric_build_graph: "symmetric (build_graph st li)"
  unfolding build_graph_def by (rule symmetric_build_graph_fold [OF symmetric_empty])

definition example_dataset :: "station_record list" where
  "example_dataset =
     [\<lparr>rec_name = ''S1'', rec_line = ''L1'', rec_neighbors = [''S2'']\<rparr>,
      \<lparr>rec_name = ''S2'', rec_line = ''L1'', rec_neighbors = [''S1'', ''S3'']\<rparr>,
      \<lparr>rec_name = ''S3'', rec_line = ''L1'', rec_neighbors = [''S2'']\<rparr>]"

definition example_stations :: stations_table where
  "example_stations =
     [(''A'', \<lparr>info_lines = [''red''], info_lat = Some 28.6, info_lon = Some 77.2\<rparr>),
      (''B'', \<lparr>info_lines = [''red''], info_lat = Some 28.7, info_lon = Some 77.1\<rparr>)]"

lemma example_loader_edge:
  "edge_weight (build_graph example_stations [(''red'', [''A'', ''B'', ''A''])]) ''A'' ''B''
     = Some (station_distance example_stations ''A'' ''B'')"
  by (simp add: build_graph_def line_edges_def has_coords_def example_stations_def
      add_edge_def set_edge_def graph_get_def edge_weight_def Let_def)

text \<open>
  C6. Every graph that the builders produce is symmetric with equal weights:
  in \<^verbatim>\<open>build_metro_graph(dataset)\<close>, for every dataset, and in the graph that
  \<^verbatim>\<open>StationLoader._build_graph\<close> fills through \<^verbatim>\<open>_add_edge\<close>, whenever \<open>b\<close> is
  recorded as a neighbour of \<open>a\<close> with weight \<open>w\<close>, \<open>a\<close> is recorded as a neighbour of
  \<open>b\<close> with the same weight \<open>w\<close>; and \<^verbatim>\<open>_add_edge\<close> keeps any symmetric graph
  symmetric.
\<close>

theorem builders_symmetric:
  "symmetric (build_metro_graph dataset)
   \<and> symmetric (build_graph st lines_index)
   \<and> (symmetric g \<longrightarrow> symmetric (add_edge st g a b))"
  using symmetric_build_metro_graph symmetric_build_graph symmetric_add_edge by blast

theorem builders_symmetric_witness:
  "edge_weight (build_metro_graph example_dataset) ''S2'' ''S3'' = Some 1
   \<and> edge_weight (build_metro_graph example_dataset) ''S3'' ''S2'' = Some 1
   \<and> edge_weight (build_graph example_stations [(''red'', [''A'', ''B'', ''A''])]) ''B'' ''A''
       = Some (station_distance example_stations ''A'' ''B'')"
proof -
  have hop: "edge_weight (build_metro_graph example_dataset) ''S2'' ''S3'' = Some 1"
    by code_simp
  from builders_symmetric [of example_dataset example_stations "[(''red'', [''A'', ''B'', ''A''])]"]
  have s1: "symmetric (build_metro_graph example_dataset)"
    and s2: "symmetric (build_graph example_stations [(''red'', [''A'', ''B'', ''A''])])"
    by blast+
  from s1 hop have "edge_weight (build_metro_graph example_dataset) ''S3'' ''S2'' = Some 1"
    unfolding symmetric_def by blast
  moreover from s2 example_loader_edge
  have "edge_weight (build_graph example_stations [(''red'', [''A'', ''B'', ''A''])]) ''B'' ''A''
       = Some (station_distance example_stations ''A'' ''B'')"
    unfolding symmetric_def by blast
  ultimately show ?thesis using hop by blast
qed

section \<open>Reachability\<close>

lemma cc_scan_result:
  assumes "cc_scan ns visited queue = (visited', queue')"
  shows "visited' = visited \<union> set ns \<and> set queue' = set queue \<union> (set ns - visited)"
  using assms
proof (induction ns arbitrary: visited queue)
  case Nil
  then show ?case by simp
next
  case (Cons n ns)
  show ?case
  proof (cases "n \<in> visited")
    case True
    with Cons.prems have "cc_scan ns visited queue = (visited', queue')" by simp
    from Cons.IH [OF this] True show ?thesis by auto
  next
    case False
    with Cons.prems have "cc_scan ns (insert n visited) (queue @ [n]) = (visited', queue')"
      by simp
    from Cons.IH [OF this] False show ?thesis by auto
  qed
qed

lemma edges_Image_closed:
  assumes "\<forall>u\<in>V. set (neighbors g u) \<subseteq> V"
  shows "(edges g)\<^sup>* `` V = V"
proof
  show "V \<subseteq> (edges g)\<^sup>* `` V" by auto
  show "(edges g)\<^sup>* `` V \<subseteq> V"
  proof
    fix v assume "v \<in> (edges g)\<^sup>* `` V"
    then obtain u where "u \<in> V" "(u, v) \<in> (edges g)\<^sup>*" by auto
    from this(2) this(1) show "v \<in> V"
    proof (induction rule: rtrancl_induct)
      case base
      then show ?case .
    next
      case (step y z)
      then have "y \<in> V" by simp
      moreover from step have "z \<in> set (neighbors g y)" by (simp add: edges_def)
      ultimately show ?case using assms by blast
    qed
  qed
qed

lemma edges_Image_neighbors:
  assumes "node \<in> V"
  shows "(edges g)\<^sup>* `` (V \<union> set (neighbors g node)) = (edges g)\<^sup>* `` V"
proof
  show "(edges g)\<^sup>* `` V \<subseteq> (edges g)\<^sup>* `` (V \<union> set (neighbors g node))" by blast
  show "(edges g)\<^sup>* `` (V \<union> set (neighbors g node)) \<subseteq> (edges g)\<^sup>* `` V"
  proof
    fix v assume "v \<in> (edges g)\<^sup>* `` (V \<union> set (neighbors g node))"
    then obtain u where u: "u \<in> V \<union> set (neighbors g node)" "(u, v) \<in> (edges g)\<^sup>*" by auto
    show "v \<in> (edges g)\<^sup>* `` V"
    proof (cases "u \<in> V")
      case True
      with u show ?thesis by blast
    next
      case False
      with u have "(node, u) \<in> edges g" by (simp add: edges_def)
      from this u(2) have "(node, v) \<in> (edges g)\<^sup>*" by (rule converse_rtrancl_into_rtrancl)
      with assms show ?thesis by blast
    qed
  qed
qed

lemma cc_loop_closure:
  assumes "set queue \<subseteq> visited"
    and "\<forall>u\<in>visited - set queue. set (neighbors g u) \<subseteq> visited"
  shows "cc_loop g visited queue = (edges g)\<^sup>* `` visited"
  using assms
proof (induction g visited queue rule: cc_loop.induct)
  case (1 g visited)
  then have "\<forall>u\<in>visited. set (neighbors g u) \<subseteq> visited" by simp
  from edges_Image_closed [OF this] show ?case by simp
next
  case (2 g visited node queue)
  obtain visited' queue' where sc: "cc_scan (neighbors g node) visited queue = (visited', queue')"
    by (cases "cc_scan (neighbors g node) visited queue")
  from cc_scan_result [OF sc]
  have v': "visited' = visited \<union> set (neighbors g node)"
    and q': "set queue' = set queue \<union> (set (neighbors g node) - visited)" by simp_all
  from "2.prems"(1) have node: "node \<in> visited" and qs: "set queue \<subseteq> visited" by simp_all
  have a: "set queue' \<subseteq> visited'" using v' q' qs by auto
  have b: "\<forall>u\<in>visited' - set queue'. set (neighbors g u) \<subseteq> visited'"
  proof
    fix u assume u: "u \<in> visited' - set queue'"
    then have uv: "u \<in> visited" "u \<notin> set queue" using v' q' by auto
    show "set (neighbors g u) \<subseteq> visited'"
    proof (cases "u = node")
      case True
      then show ?thesis using v' by auto
    next
      case False
      with uv have "u \<in> visited - set (node # queue)" by simp
      with "2.prems"(2) have "set (neighbors g u) \<subseteq> visited" by blast
      then show ?thesis using v' by auto
    qed
  qed
  have "cc_loop g visited (node # queue) = cc_loop g visited' queue'" using sc by simp
  also have "\<dots> = (edges g)\<^sup>* `` visited'"
    using "2.IH" [OF sc [symmetric] a b] .
  also have "\<dots> = (edges g)\<^sup>* `` visited"
    unfolding v' using node by (rule edges_Image_neighbors)
  finally show ?case .
qed

lemma get_connected_component_reach:
  "get_connected_component g start =
     (if in_graph g start then {v. (start, v) \<in> (edges g)\<^sup>*} else {})"
proof (cases "in_graph g start")
  case True
  have "cc_loop g {start} [start] = (edges g)\<^sup>* `` {start}"
    by (rule cc_loop_closure) simp_all
  with True show ?thesis by (auto simp: get_connected_component_def)
next
  case False
  then show ?thesis by (simp add: get_connected_component_def)
qed

lemma is_reachable_iff:
  "is_reachable g a b \<longleftrightarrow> in_graph g a \<and> (a, b) \<in> (edges g)\<^sup>*"
  by (simp add: is_reachable_def get_connected_component_reach)

lemma edges_edge_weight: "(u, v) \<in> edges g \<longleftrightarrow> edge_weight g u v \<noteq> None"
proof (cases "map_of g u")
  case None
  then show ?thesis by (simp add: edges_def neighbors_def graph_get_def edge_weight_def)
next
  case (Some nbrs)
  then show ?thesis
    by (simp add: edges_def neighbors_def graph_get_def edge_weight_def map_of_eq_None_iff)
qed

lemma edge_in_graph: "(u, v) \<in> edges g \<Longrightarrow> in_graph g u"
  by (cases "map_of g u") (simp_all add: edges_def neighbors_def graph_get_def in_graph_def)

lemma symmetric_edges: 
  assumes "symmetric g"
  shows "sym (edges g)"
proof (rule symI)
  fix u v assume "(u, v) \<in> edges g"
  then obtain w where "edge_weight g u v = Some w" by (auto simp: edges_edge_weight)
  with assms have "edge_weight g v u = Some w" unfolding symmetric_def by blast
  then show "(v, u) \<in> edges g" by (simp add: edges_edge_weight)
qed

lemma reach_in_graph:
  assumes "symmetric g" and "(a, b) \<in> (edges g)\<^sup>*" and "in_graph g a"
  shows "in_graph g b"
  using assms(2,3)
proof (induction rule: rtrancl_induct)
  case base
  then show ?case .
next
  case (step y z)
  from step(2) symmetric_edges [OF assms(1)] have "(z, y) \<in> edges g" by (meson symD)
  then show ?case by (rule edge_in_graph)
qed

lemma is_reachable_symmetric:
  assumes "symmetric g"
  shows "is_reachable g a b = is_reachable g b a"
proof -
  have one: "is_reachable g y x" if "is_reachable g x y" for x y
  proof -
    from that have x: "in_graph g x" and r: "(x, y) \<in> (edges g)\<^sup>*"
      by (simp_all add: is_reachable_iff)
    from reach_in_graph [OF assms r x] have "in_graph g y" .
    moreover from symmetric_edges [OF assms] have "sym ((edges g)\<^sup>*)" by (rule sym_rtrancl)
    with r have "(y, x) \<in> (edges g)\<^sup>*" by (meson symD)
    ultimately show ?thesis by (simp add: is_reachable_iff)
  qed
  then show ?thesis by blast
qed

text \<open>
  C9. Reachability is symmetric on the graphs of \<^verbatim>\<open>build_metro_graph\<close>: for every
  dataset and every two station names, vertices of the graph or not,
  \<^verbatim>\<open>is_reachable(graph, a, b) == is_reachable(graph, b, a)\<close>.
\<close>

theorem is_reachable_build_metro_graph:
  "is_reachable (build_metro_graph dataset) a b = is_reachable (build_metro_graph dataset) b a"
  using symmetric_build_metro_graph by (rule is_reachable_symmetric)

theorem is_reachable_build_metro_graph_witness:
  "is_reachable (build_metro_graph example_dataset) ''S1'' ''S3''
   \<and> is_reachable (build_metro_graph example_dataset) ''S3'' ''S1''
   \<and> \<not> is_reachable (build_metro_graph example_dataset) ''Ghost Station'' ''S1''
   \<and> \<not> is_reachable (build_metro_graph example_dataset) ''S1'' ''Ghost Station''"
proof -
  have a: "is_reachable (build_metro_graph example_dataset) ''S1'' ''S3''"
    by code_simp
  have b: "\<not> is_reachable (build_metro_graph example_dataset) ''Ghost Station'' ''S1''"
    by code_simp
  from a have "is_reachable (build_metro_graph example_dataset) ''S3'' ''S1''"
    using is_reachable_build_metro_graph [of example_dataset "''S1''" "''S3''"] by simp
  moreover from b have "\<not> is_reachable (build_metro_graph example_dataset) ''S1'' ''Ghost Station''"
    using is_reachable_build_metro_graph [of example_dataset "''S1''" "''Ghost Station''"]
    by simp
  ultimately show ?thesis using a b by blast
qed

section \<open>The segments cover the path\<close>

lemma index_of_nth: "distinct xs \<Longrightarrow> i < length xs \<Longrightarrow> index_of xs (xs ! i) = i"
proof (induction xs arbitrary: i)
  case Nil
  then show ?case by simp
next
  case (Cons x xs)
  show ?case
  proof (cases i)
    case 0
    then show ?thesis by simp
  next
    case (Suc j)
    with Cons.prems have "j < length xs" "xs ! j \<in> set xs" "x \<notin> set xs" "distinct xs" by auto
    then have "x \<noteq> xs ! j" by metis
    with Suc Cons.IH [of j] \<open>distinct xs\<close> \<open>j < length xs\<close> show ?thesis by simp
  qed
qed

lemma line_changes_Suc:
  "1 \<le> k \<Longrightarrow> line_changes pick lk p (Suc k) =
     line_changes pick lk p k @
       (if get_connecting_line pick lk (p ! k) (p ! (k + 1))
            \<noteq> get_connecting_line pick lk (p ! (k - 1)) (p ! k) then [k] else [])"
  by (simp add: line_changes_def)

lemma line_changes_bound: "i \<in> set (line_changes pick lk p k) \<Longrightarrow> 1 \<le> i \<and> i < k"
  by (auto simp: line_changes_def)

lemma segment_origin_bound:
  assumes "1 \<le> k"
  shows "segment_origin pick lk p k < k"
proof (cases "line_changes pick lk p k = []")
  case True
  with assms show ?thesis by (simp add: segment_origin_def)
next
  case False
  then have "last (line_changes pick lk p k) \<in> set (line_changes pick lk p k)" by simp
  then have "last (line_changes pick lk p k) < k" using line_changes_bound by blast
  with False show ?thesis by (simp add: segment_origin_def)
qed

lemma zip_snoc_shift: "zip (x # xs @ [y]) (xs @ [y]) = zip (x # xs) xs @ [(last (x # xs), y)]"
  by (induction xs arbitrary: x) simp_all

lemma zip_snoc_last: "zip (x # xs) (xs @ [y]) = zip (x # xs) xs @ [(last (x # xs), y)]"
  by (induction xs arbitrary: x) simp_all

lemma zip_changes_snoc:
  "zip (0 # cs @ [k]) (cs @ [k]) = zip (0 # cs) cs @ [(last (0 # cs), k)]"
  by (rule zip_snoc_shift)

lemma zip_changes_last:
  "zip (0 # cs) (cs @ [k]) = zip (0 # cs) cs @ [(last (0 # cs), k)]"
  by (rule zip_snoc_last)

lemma segment_fold:
  assumes d: "distinct p" and k1: "1 \<le> k" and kn: "k < length p"
  shows "fold (segment_at pick lk p) [1 ..< k]
           ([], p ! 0, get_connecting_line pick lk (p ! 0) (p ! 1))
         = (map (segment_between pick lk p)
              (zip (0 # line_changes pick lk p k) (line_changes pick lk p k)),
            p ! segment_origin pick lk p k,
            get_connecting_line pick lk (p ! (k - 1)) (p ! k))"
  using k1 kn
proof (induction k)
  case 0
  then show ?case by simp
next
  case (Suc k)
  show ?case
  proof (cases "k = 0")
    case True
    then show ?thesis by (simp add: line_changes_def segment_origin_def)
  next
    case False
    then have k1: "1 \<le> k" and kn: "k < length p" using Suc.prems by simp_all
    let ?cs = "line_changes pick lk p k"
    let ?a = "segment_origin pick lk p k"
    let ?S = "map (segment_between pick lk p) (zip (0 # ?cs) ?cs)"
    let ?init = "([], p ! 0, get_connecting_line pick lk (p ! 0) (p ! 1))"
    have IH: "fold (segment_at pick lk p) [1 ..< k] ?init
         = (?S, p ! ?a, get_connecting_line pick lk (p ! (k - 1)) (p ! k))"
      using Suc.IH [OF k1 kn] .
    have "[1 ..< Suc k] = [1 ..< k] @ [k]" using k1 by simp
    then have step: "fold (segment_at pick lk p) [1 ..< Suc k] ?init
        = segment_at pick lk p k
            (?S, p ! ?a, get_connecting_line pick lk (p ! (k - 1)) (p ! k))"
      using IH by (simp only: fold_append fold_simps comp_apply id_apply)
    have a_lt: "?a < k" using segment_origin_bound [OF k1] .
    then have ia: "index_of p (p ! ?a) = ?a" using index_of_nth [OF d] kn by simp
    have ik: "index_of p (p ! k) = k" using index_of_nth [OF d kn] .
    show ?thesis
    proof (cases "get_connecting_line pick lk (p ! k) (p ! (k + 1))
            \<noteq> get_connecting_line pick lk (p ! (k - 1)) (p ! k)")
      case True
      then have cs': "line_changes pick lk p (Suc k) = ?cs @ [k]"
        using line_changes_Suc [OF k1] by simp
      then have o': "segment_origin pick lk p (Suc k) = k"
        by (simp add: segment_origin_def)
      have z: "zip (0 # ?cs @ [k]) (?cs @ [k]) = zip (0 # ?cs) ?cs @ [(?a, k)]"
        unfolding segment_origin_def by (rule zip_changes_snoc)
      have "segment_at pick lk p k
            (?S, p ! ?a, get_connecting_line pick lk (p ! (k - 1)) (p ! k))
         = (?S @ [segment_between pick lk p (?a, k)], p ! k,
            get_connecting_line pick lk (p ! k) (p ! (k + 1)))"
        using True ia ik by (simp add: segment_at_def segment_between_def Let_def)
      with step have "fold (segment_at pick lk p) [1 ..< Suc k] ?init
         = (?S @ [segment_between pick lk p (?a, k)], p ! k,
            get_connecting_line pick lk (p ! k) (p ! (k + 1)))"
        by (rule trans)
      moreover have "(map (segment_between pick lk p)
              (zip (0 # line_changes pick lk p (Suc k)) (line_changes pick lk p (Suc k))),
            p ! segment_origin pick lk p (Suc k),
            get_connecting_line pick lk (p ! (Suc k - 1)) (p ! Suc k))
         = (?S @ [segment_between pick lk p (?a, k)], p ! k,
            get_connecting_line pick lk (p ! k) (p ! (k + 1)))"
        unfolding cs' o' z by simp
      ultimately show ?thesis by (rule trans [OF _ sym])
    next
      case False
      then have cs': "line_changes pick lk p (Suc k) = ?cs"
        using line_changes_Suc [OF k1] by simp
      then have o': "segment_origin pick lk p (Suc k) = ?a"
        by (simp add: segment_origin_def)
      have "segment_at pick lk p k
            (?S, p ! ?a, get_connecting_line pick lk (p ! (k - 1)) (p ! k))
         = (?S, p ! ?a, get_connecting_line pick lk (p ! k) (p ! (k + 1)))"
        using False by (simp add: segment_at_def Let_def)
      with step have "fold (segment_at pick lk p) [1 ..< Suc k] ?init
         = (?S, p ! ?a, get_connecting_line pick lk (p ! k) (p ! (k + 1)))"
        by (rule trans)
      moreover have "(map (segment_between pick lk p)
              (zip (0 # line_changes pick lk p (Suc k)) (line_changes pick lk p (Suc k))),
            p ! segment_origin pick lk p (Suc k),
            get_connecting_line pick lk (p ! (Suc k - 1)) (p ! Suc k))
         = (?S, p ! ?a, get_connecting_line pick lk (p ! k) (p ! (k + 1)))"
        unfolding cs' o' by simp
      ultimately show ?thesis by (rule trans [OF _ sym])
    qed
  qed
qed

lemma format_route_details_segments:
  assumes d: "distinct p" and n: "2 \<le> length p"
  shows "format_route_details pick lk p =
     map (segment_between pick lk p)
       (zip (0 # line_changes pick lk p (length p - 1))
            (line_changes pick lk p (length p - 1) @ [length p - 1]))"
proof -
  let ?k = "length p - 1"
  let ?cs = "line_changes pick lk p ?k"
  let ?a = "segment_origin pick lk p ?k"
  let ?S = "map (segment_between pick lk p) (zip (0 # ?cs) ?cs)"
  have k1: "1 \<le> ?k" and kn: "?k < length p" using n by simp_all
  have a_lt: "?a < ?k" using segment_origin_bound [OF k1] .
  then have ia: "index_of p (p ! ?a) = ?a"
    using index_of_nth [OF d] by simp
  have lp: "last p = p ! ?k" using n by (cases p rule: rev_cases) (simp_all add: nth_append)
  have nl: "\<not> length p < 2" using n by simp
  have "format_route_details pick lk p =
      ?S @ [\<lparr>step_start = p ! ?a, step_end = last p,
            step_line = get_connecting_line pick lk (p ! (?k - 1)) (p ! ?k),
            step_stops = int (length p) - 1 - int (index_of p (p ! ?a))\<rparr>]"
    unfolding format_route_details_def segment_fold [OF d k1 kn]
    by (simp only: nl if_False prod.case)
  also have "\<dots> = ?S @ [segment_between pick lk p (?a, ?k)]"
    unfolding ia lp using n by (simp add: segment_between_def of_nat_diff)
  also have "\<dots> = map (segment_between pick lk p) (zip (0 # ?cs) (?cs @ [?k]))"
    unfolding zip_changes_last segment_origin_def by simp
  finally show ?thesis .
qed


lemma sum_stops_telescope:
  "sum_list (map (\<lambda>ab. step_stops (segment_between pick lk p ab)) (zip (x # xs) (xs @ [y])))
     = int y - int x"
  by (induction xs arbitrary: x) (simp_all add: segment_between_def)

lemma segments_covering:
  assumes segs_def: "segs = map (segment_between pick lk p) (zip (0 # cs) (cs @ [m]))"
  shows "length segs = Suc (length cs)"
    and "step_start (hd segs) = p ! 0"
    and "step_end (last segs) = p ! m"
    and "Suc i < length segs \<Longrightarrow> step_end (segs ! i) = step_start (segs ! Suc i)"
    and "sum_list (map step_stops segs) = int m"
proof -
  show len: "length segs = Suc (length cs)" by (simp add: segs_def)
  have nth: "segs ! j = segment_between pick lk p ((0 # cs) ! j, (cs @ [m]) ! j)"
    if "j \<le> length cs" for j
    using that by (simp add: segs_def)
  from len have ne: "segs \<noteq> []" by auto
  have "hd segs = segs ! 0" using ne by (rule hd_conv_nth)
  then show "step_start (hd segs) = p ! 0"
    using nth [of 0] by (simp add: segment_between_def)
  have "last segs = segs ! length cs" using len last_conv_nth [OF ne] by simp
  then show "step_end (last segs) = p ! m"
    using nth [of "length cs"] by (simp add: segment_between_def)
  show "step_end (segs ! i) = step_start (segs ! Suc i)" if "Suc i < length segs"
  proof -
    from that len have i: "i < length cs" by simp
    then have "step_end (segs ! i) = p ! (cs ! i)"
      using nth [of i] by (simp add: segment_between_def nth_append)
    moreover from i have "step_start (segs ! Suc i) = p ! (cs ! i)"
      using nth [of "Suc i"] by (simp add: segment_between_def)
    ultimately show ?thesis by simp
  qed
  have "sum_list (map step_stops segs) = int m - int 0"
    unfolding segs_def map_map comp_def by (rule sum_stops_telescope)
  then show "sum_list (map step_stops segs) = int m" by simp
qed

lemma example_segments:
  "format_route_details first_common example_lookup [''S1'', ''S2'', ''S3'', ''S4'', ''S5'']
     = [\<lparr>step_start = ''S1'', step_end = ''S3'', step_line = ''L1'', step_stops = 2\<rparr>,
        \<lparr>step_start = ''S3'', step_end = ''S5'', step_line = ''L2'', step_stops = 2\<rparr>]"
  by code_simp

text \<open>
  C3. For every simple path \<open>p\<close> (no repeated vertex) of at least two stations, the
  segments of \<^verbatim>\<open>format_route_details(p)\<close> cover \<open>p\<close> with no gap and no overlap: there
  is a first segment and it starts at \<open>p[0]\<close>, the last segment ends at \<open>p[-1]\<close>, every
  segment ends where the next one starts, the stop counts add up to \<open>len(p) - 1\<close>, and
  the number of segments minus one is the number of positions at which the connecting
  line of consecutive edges changes. This holds whichever common line
  \<^verbatim>\<open>list(common_lines)[0]\<close> yields for each pair of line lists. (That consecutive
  stations are adjacent in the graph is not needed.)
\<close>

theorem format_route_details_covers:
  assumes "distinct p" and "2 \<le> length p"
  shows "format_route_details pick lk p \<noteq> []
    \<and> step_start (hd (format_route_details pick lk p)) = hd p
    \<and> step_end (last (format_route_details pick lk p)) = last p
    \<and> (\<forall>i. Suc i < length (format_route_details pick lk p) \<longrightarrow>
          step_end (format_route_details pick lk p ! i)
            = step_start (format_route_details pick lk p ! Suc i))
    \<and> sum_list (map step_stops (format_route_details pick lk p)) = int (length p) - 1
    \<and> int (length (format_route_details pick lk p)) - 1
        = int (length (filter
            (\<lambda>i. get_connecting_line pick lk (p ! i) (p ! (i + 1))
                  \<noteq> get_connecting_line pick lk (p ! (i - 1)) (p ! i))
            [1 ..< length p - 1]))"
proof -
  let ?cs = "line_changes pick lk p (length p - 1)"
  have eq: "format_route_details pick lk p =
     map (segment_between pick lk p) (zip (0 # ?cs) (?cs @ [length p - 1]))"
    using format_route_details_segments [OF assms] .
  note cov = segments_covering [OF eq]
  have len: "length (format_route_details pick lk p) = Suc (length ?cs)" using cov(1) .
  have hd0: "hd p = p ! 0" using assms(2) by (cases p) simp_all
  have lp: "last p = p ! (length p - 1)" using assms(2) by (cases p rule: rev_cases) simp_all
  have "format_route_details pick lk p \<noteq> []" using len by auto
  moreover have "step_start (hd (format_route_details pick lk p)) = hd p"
    using cov(2) hd0 by simp
  moreover have "step_end (last (format_route_details pick lk p)) = last p"
    using cov(3) lp by simp
  moreover have "\<forall>i. Suc i < length (format_route_details pick lk p) \<longrightarrow>
          step_end (format_route_details pick lk p ! i)
            = step_start (format_route_details pick lk p ! Suc i)"
    using cov(4) by blast
  moreover have "sum_list (map step_stops (format_route_details pick lk p)) = int (length p) - 1"
    using cov(5) assms(2) by (simp add: of_nat_diff)
  moreover have "int (length (format_route_details pick lk p)) - 1
        = int (length (filter
            (\<lambda>i. get_connecting_line pick lk (p ! i) (p ! (i + 1))
                  \<noteq> get_connecting_line pick lk (p ! (i - 1)) (p ! i))
            [1 ..< length p - 1]))"
    using len by (simp add: line_changes_def)
  ultimately show ?thesis by blast
qed

theorem format_route_details_covers_witness:
  "distinct [''S1'', ''S2'', ''S3'', ''S4'', ''S5'']
   \<and> 2 \<le> length [''S1'', ''S2'', ''S3'', ''S4'', ''S5'']
   \<and> sum_list (map step_stops
         (format_route_details first_common example_lookup [''S1'', ''S2'', ''S3'', ''S4'', ''S5''])) = 4
   \<and> step_end (last
         (format_route_details first_common example_lookup [''S1'', ''S2'', ''S3'', ''S4'', ''S5''])) = ''S5''
   \<and> length (format_route_details first_common example_lookup [''S1'', ''S2'', ''S3'', ''S4'', ''S5'']) = 2"
proof -
  have d: "distinct [''S1'', ''S2'', ''S3'', ''S4'', ''S5'']" by simp
  have n: "2 \<le> length [''S1'', ''S2'', ''S3'', ''S4'', ''S5'']" by simp
  from format_route_details_covers [OF d n, of first_common example_lookup]
  have "sum_list (map step_stops
         (format_route_details first_common example_lookup [''S1'', ''S2'', ''S3'', ''S4'', ''S5''])) = 4"
    and "step_end (last
         (format_route_details first_common example_lookup [''S1'', ''S2'', ''S3'', ''S4'', ''S5''])) = ''S5''"
    by simp_all
  moreover have
    "length (format_route_details first_common example_lookup [''S1'', ''S2'', ''S3'', ''S4'', ''S5'']) = 2"
    by (simp add: example_segments)
  ultimately show ?thesis using d n by blast
qed

section \<open>Validation of station names\<close>














section \<open>The fewest-stations search finds a shortest path\<close>

lemma path_in_snoc:
  "path_in g (p @ [n]) \<longleftrightarrow> path_in g p \<and> (p \<noteq> [] \<longrightarrow> n \<in> set (neighbors g (last p)))"
  by (induction g p rule: path_in.induct) auto

lemma path_in_append_left: "path_in g (xs @ ys) \<Longrightarrow> path_in g xs"
  by (induction g xs rule: path_in.induct) simp_all

lemma path_in_append_right: "path_in g (xs @ ys) \<Longrightarrow> path_in g ys"
proof (induction g xs rule: path_in.induct)
  case (1 g)
  then show ?case by simp
next
  case (2 g v)
  then show ?case by (cases ys) simp_all
next
  case (3 g u v vs)
  then show ?case by simp
qed

lemma path_crossing:
  assumes "q \<noteq> []" and "hd q \<in> V" and "last q \<notin> V"
  shows "\<exists>q1 u w q2. q = q1 @ u # w # q2 \<and> u \<in> V \<and> w \<notin> V \<and> hd (q1 @ [u]) = hd q"
  using assms
proof (induction q)
  case Nil
  then show ?case by simp
next
  case (Cons x q)
  show ?case
  proof (cases q)
    case Nil
    with Cons.prems show ?thesis by simp
  next
    case (Cons y ys)
    show ?thesis
    proof (cases "y \<in> V")
      case False
      have "x # q = [] @ x # y # ys" using Cons by simp
      moreover have "x \<in> V" using Cons.prems by simp
      ultimately show ?thesis using False by fastforce
    next
      case True
      with Cons Cons.prems have "q \<noteq> []" "hd q \<in> V" "last q \<notin> V" by simp_all
      from Cons.IH [OF this] obtain q1 u w q2
        where "q = q1 @ u # w # q2" "u \<in> V" "w \<notin> V" by blast
      then have "x # q = (x # q1) @ u # w # q2 \<and> u \<in> V \<and> w \<notin> V
          \<and> hd ((x # q1) @ [u]) = hd (x # q)" by simp
      then show ?thesis by blast
    qed
  qed
qed

lemma path_leaves_closed:
  assumes pf: "path_from_to g a b q" and a: "a \<in> V" and b: "b \<notin> V"
  obtains r u w where "path_from_to g a u r" "length r < length q" "u \<in> V" "w \<notin> V"
    "w \<in> set (neighbors g u)"
proof -
  from pf have q: "q \<noteq> []" "hd q = a" "last q = b" "path_in g q"
    by (simp_all add: path_from_to_def)
  with a b path_crossing [of q V] obtain q1 u w q2
    where d: "q = q1 @ u # w # q2" "u \<in> V" "w \<notin> V" "hd (q1 @ [u]) = hd q" by auto
  from d(1) have "q = (q1 @ [u]) @ (w # q2)" by simp
  with q(4) have "path_in g (q1 @ [u])" by (metis path_in_append_left)
  with d(4) q(2) have 1: "path_from_to g a u (q1 @ [u])" by (simp add: path_from_to_def)
  from d(1) have 2: "length (q1 @ [u]) < length q" by simp
  from d(1) q(4) have "path_in g (u # w # q2)" by (metis path_in_append_right)
  then have 3: "w \<in> set (neighbors g u)" by simp
  from that [OF 1 2 d(2) d(3) 3] show thesis .
qed

lemma extension_shortest:
  assumes inv: "scan_inv g start goal p ns visited queue"
    and n: "n \<in> set ns" and nv: "n \<notin> visited"
  shows "shortest_to g start (p @ [n])"
proof -
  from inv have sp: "shortest_to g start p" and sv: "start \<in> visited"
    and qs: "\<forall>q\<in>set queue. shortest_to g start q \<and> length p \<le> length q"
    and cl: "\<forall>u\<in>visited. u = last p \<or> u \<in> last ` set queue \<or> set (neighbors g u) \<subseteq> visited"
    and nb: "set ns \<subseteq> set (neighbors g (last p))"
    by (simp_all add: scan_inv_def)
  from sp have pf: "p \<noteq> []" "hd p = start" "path_in g p"
    and pmin: "\<And>r. path_from_to g start (last p) r \<Longrightarrow> length p \<le> length r"
    by (simp_all add: shortest_to_def path_from_to_def)
  from n nb have edge: "n \<in> set (neighbors g (last p))" by blast
  have ext: "path_from_to g start n (p @ [n])"
    using pf edge by (simp add: path_from_to_def path_in_snoc)
  have "length (p @ [n]) \<le> length q" if q: "path_from_to g start n q" for q
  proof (rule ccontr)
    assume "\<not> length (p @ [n]) \<le> length q"
    then have short: "length q \<le> length p" by simp
    from path_leaves_closed [OF q sv nv] obtain r u w
      where r: "path_from_to g start u r" "length r < length q" "u \<in> visited" "w \<notin> visited"
        "w \<in> set (neighbors g u)" by blast
    from r(3) cl have "u = last p \<or> u \<in> last ` set queue \<or> set (neighbors g u) \<subseteq> visited"
      by blast
    then show False
    proof (elim disjE)
      assume "u = last p"
      with r(1) pmin have "length p \<le> length r" by simp
      with r(2) short show False by simp
    next
      assume "u \<in> last ` set queue"
      then obtain q' where q': "q' \<in> set queue" "u = last q'" by blast
      with qs have "shortest_to g start q'" "length p \<le> length q'" by simp_all
      with r(1) q'(2) have "length q' \<le> length r" by (simp add: shortest_to_def)
      with \<open>length p \<le> length q'\<close> r(2) short show False by simp
    next
      assume "set (neighbors g u) \<subseteq> visited"
      with r(4,5) show False by blast
    qed
  qed
  with ext show ?thesis by (simp add: shortest_to_def)
qed


lemma scan_inv_skip:
  assumes "scan_inv g start goal p (n # ns) visited queue" and "n \<in> visited"
  shows "scan_inv g start goal p ns visited queue"
  using assms unfolding scan_inv_def by auto

lemma scan_inv_push:
  assumes inv: "scan_inv g start goal p (n # ns) visited queue"
    and nv: "n \<notin> visited" and ng: "n \<noteq> goal"
  shows "scan_inv g start goal p ns (insert n visited) (queue @ [p @ [n]])"
proof -
  have sh: "shortest_to g start (p @ [n])"
    using extension_shortest [OF inv _ nv] by simp
  from inv have a: "start \<in> visited" "goal \<notin> visited" "shortest_to g start p"
      "last p \<in> visited"
    and qs: "\<forall>q\<in>set queue. shortest_to g start q \<and> last q \<in> visited
            \<and> length p \<le> length q \<and> length q \<le> length p + 1"
    and so: "sorted (map length queue)"
    and cl: "\<forall>u\<in>visited. u = last p \<or> u \<in> last ` set queue
            \<or> set (neighbors g u) \<subseteq> visited"
    and nb: "set (neighbors g (last p)) \<subseteq> visited \<union> set (n # ns)"
      "set (n # ns) \<subseteq> set (neighbors g (last p))"
    by (simp_all add: scan_inv_def)
  have 1: "start \<in> insert n visited" "goal \<notin> insert n visited" "last p \<in> insert n visited"
    using a ng by auto
  have 2: "\<forall>q\<in>set (queue @ [p @ [n]]). shortest_to g start q \<and> last q \<in> insert n visited
            \<and> length p \<le> length q \<and> length q \<le> length p + 1"
    using qs sh by auto
  have 3: "sorted (map length (queue @ [p @ [n]]))"
    using so qs by (auto simp: sorted_append)
  have 4: "\<forall>u\<in>insert n visited. u = last p \<or> u \<in> last ` set (queue @ [p @ [n]])
            \<or> set (neighbors g u) \<subseteq> insert n visited"
  proof
    fix u assume "u \<in> insert n visited"
    then consider "u = n" | "u \<in> visited" by blast
    then show "u = last p \<or> u \<in> last ` set (queue @ [p @ [n]])
            \<or> set (neighbors g u) \<subseteq> insert n visited"
    proof cases
      case 1
      have "last (p @ [n]) \<in> last ` set (queue @ [p @ [n]])" by (rule imageI) simp
      with 1 show ?thesis by simp
    next
      case 2
      with cl have "u = last p \<or> u \<in> last ` set queue \<or> set (neighbors g u) \<subseteq> visited"
        by blast
      then show ?thesis by auto
    qed
  qed
  have 5: "set (neighbors g (last p)) \<subseteq> insert n visited \<union> set ns"
    "set ns \<subseteq> set (neighbors g (last p))"
    using nb by auto
  show ?thesis
    unfolding scan_inv_def using 1 2 3 4 5 a(3) by blast
qed

lemma bfs_scan_correct:
  assumes "scan_inv g start goal p ns visited queue"
  shows "case bfs_scan goal p ns visited queue of
           Inl found \<Rightarrow> shortest_to g start found \<and> last found = goal
         | Inr (visited', queue') \<Rightarrow> scan_inv g start goal p [] visited' queue'"
  using assms
proof (induction ns arbitrary: visited queue)
  case Nil
  then show ?case by simp
next
  case (Cons n ns)
  show ?case
  proof (cases "n \<in> visited")
    case True
    from Cons.IH [OF scan_inv_skip [OF Cons.prems True]] True show ?thesis by simp
  next
    case nv: False
    show ?thesis
    proof (cases "n = goal")
      case True
      have "shortest_to g start (p @ [n])"
        using extension_shortest [OF Cons.prems _ nv] by simp
      with nv True show ?thesis by simp
    next
      case False
      from Cons.IH [OF scan_inv_push [OF Cons.prems nv False]] nv False
      show ?thesis by simp
    qed
  qed
qed

lemma loop_inv_scan:
  assumes "loop_inv g start goal visited (p # queue)"
  shows "scan_inv g start goal p (neighbors g (last p)) visited queue"
proof -
  from assms have a: "start \<in> visited" "goal \<notin> visited"
    and qs: "\<forall>q\<in>set (p # queue). shortest_to g start q \<and> last q \<in> visited"
    and so: "sorted (map length (p # queue))"
    and le: "\<forall>q\<in>set (p # queue). length q \<le> length (hd (p # queue)) + 1"
    and cl: "\<forall>u\<in>visited. u \<in> last ` set (p # queue) \<or> set (neighbors g u) \<subseteq> visited"
    by (simp_all add: loop_inv_def)
  have 1: "shortest_to g start p" "last p \<in> visited" using qs by simp_all
  have 2: "\<forall>q\<in>set queue. shortest_to g start q \<and> last q \<in> visited
            \<and> length p \<le> length q \<and> length q \<le> length p + 1"
    using qs so le by auto
  have 3: "sorted (map length queue)" using so by simp
  have 4: "\<forall>u\<in>visited. u = last p \<or> u \<in> last ` set queue
            \<or> set (neighbors g u) \<subseteq> visited"
    using cl by auto
  show ?thesis unfolding scan_inv_def using a 1 2 3 4 by blast
qed

lemma scan_inv_loop:
  assumes "scan_inv g start goal p [] visited queue"
  shows "loop_inv g start goal visited queue"
proof -
  from assms have a: "start \<in> visited" "goal \<notin> visited"
    unfolding scan_inv_def by blast+
  from assms have qs: "\<forall>q\<in>set queue. shortest_to g start q \<and> last q \<in> visited
            \<and> length p \<le> length q \<and> length q \<le> length p + 1"
    unfolding scan_inv_def by blast
  from assms have so: "sorted (map length queue)"
    unfolding scan_inv_def by blast
  from assms have cl: "\<forall>u\<in>visited. u = last p \<or> u \<in> last ` set queue
            \<or> set (neighbors g u) \<subseteq> visited"
    unfolding scan_inv_def by blast
  from assms have "set (neighbors g (last p)) \<subseteq> visited \<union> set []"
    unfolding scan_inv_def by blast
  then have nb: "set (neighbors g (last p)) \<subseteq> visited" by simp
  have 1: "\<forall>q\<in>set queue. shortest_to g start q \<and> last q \<in> visited" using qs by blast
  have 2: "\<forall>q\<in>set queue. length q \<le> length (hd queue) + 1"
  proof
    fix q assume q: "q \<in> set queue"
    then have "queue \<noteq> []" by auto
    then have "hd queue \<in> set queue" by simp
    with qs have "length p \<le> length (hd queue)" by blast
    moreover from qs q have "length q \<le> length p + 1" by blast
    ultimately show "length q \<le> length (hd queue) + 1" by simp
  qed
  have 3: "\<forall>u\<in>visited. u \<in> last ` set queue \<or> set (neighbors g u) \<subseteq> visited"
  proof
    fix u assume "u \<in> visited"
    with cl have "u = last p \<or> u \<in> last ` set queue \<or> set (neighbors g u) \<subseteq> visited"
      by blast
    then show "u \<in> last ` set queue \<or> set (neighbors g u) \<subseteq> visited"
    proof (elim disjE)
      assume "u = last p"
      then have "set (neighbors g u) \<subseteq> visited" using nb by simp
      then show ?thesis ..
    qed blast+
  qed
  show ?thesis unfolding loop_inv_def by (intro conjI a 1 so 2 3)
qed

lemma bfs_loop_correct:
  assumes "loop_inv g start goal visited queue"
  shows "case bfs_loop g goal visited queue of
           Some found \<Rightarrow> shortest_to g start found \<and> last found = goal
         | None \<Rightarrow> \<not> (\<exists>q. path_from_to g start goal q)"
  using assms
proof (induction g goal visited queue rule: bfs_loop.induct)
  case (1 g goal visited)
  then have sv: "start \<in> visited" and gv: "goal \<notin> visited"
    and cl: "\<forall>u\<in>visited. set (neighbors g u) \<subseteq> visited"
    by (simp_all add: loop_inv_def)
  have "\<not> path_from_to g start goal q" for q
  proof
    assume "path_from_to g start goal q"
    from path_leaves_closed [OF this sv gv] obtain u w
      where "u \<in> visited" "w \<notin> visited" "w \<in> set (neighbors g u)" by blast
    with cl show False by blast
  qed
  then show ?case by simp
next
  case (2 g goal visited p queue)
  from bfs_scan_correct [OF loop_inv_scan [OF "2.prems"]]
  have sc: "case bfs_scan goal p (neighbors g (last p)) visited queue of
           Inl found \<Rightarrow> shortest_to g start found \<and> last found = goal
         | Inr (visited', queue') \<Rightarrow> scan_inv g start goal p [] visited' queue'" .
  show ?case
  proof (cases "bfs_scan goal p (neighbors g (last p)) visited queue")
    case (Inl found)
    with sc show ?thesis by simp
  next
    case (Inr vq)
    obtain visited' queue' where vq: "vq = (visited', queue')" by (cases vq)
    with Inr sc have "scan_inv g start goal p [] visited' queue'" by simp
    then have "loop_inv g start goal visited' queue'" by (rule scan_inv_loop)
    from "2.IH" [OF Inr vq [symmetric] this] Inr vq show ?thesis by simp
  qed
qed

lemma shortest_to_single: "shortest_to g start [start]"
  by (auto simp: shortest_to_def path_from_to_def Suc_le_eq)

lemma loop_inv_initial:
  assumes "start \<noteq> goal"
  shows "loop_inv g start goal {start} [[start]]"
  unfolding loop_inv_def using assms shortest_to_single by simp

lemma bfs_shortest_path_correct:
  assumes a: "in_graph g a" and b: "in_graph g b" and r: "\<exists>q. path_from_to g a b q"
  shows "\<exists>p. bfs_shortest_path g a b = Some p \<and> path_from_to g a b p
           \<and> (\<forall>q. path_from_to g a b q \<longrightarrow> length p \<le> length q)"
proof (cases "a = b")
  case True
  have "shortest_to g a [a]" by (rule shortest_to_single)
  with True show ?thesis by (simp add: bfs_shortest_path_def shortest_to_def)
next
  case False
  from bfs_loop_correct [OF loop_inv_initial [OF False], of g] r
  obtain found where f: "bfs_loop g b {a} [[a]] = Some found"
    "shortest_to g a found" "last found = b"
    by (cases "bfs_loop g b {a} [[a]]") auto
  from False a b f(1) have "bfs_shortest_path g a b = Some found"
    by (simp add: bfs_shortest_path_def)
  with f(2,3) show ?thesis by (auto simp: shortest_to_def)
qed

lemma dfs_sound:
  assumes "q \<in> set (dfs g goal m node p visited)" and "path_from_to g s node p"
  shows "path_from_to g s goal q"
  using assms
proof (induction g goal m node p visited rule: dfs.induct)
  case (1 g goal m node p visited)
  show ?case
  proof (cases "int (length p) > m")
    case True
    with "1.prems"(1) show ?thesis by (simp add: dfs.simps)
  next
    case len: False
    show ?thesis
    proof (cases "node = goal")
      case True
      with len "1.prems" show ?thesis by (simp add: dfs.simps)
    next
      case False
      with len "1.prems"(1) obtain n where n: "n \<in> set (neighbors g node)" "n \<notin> visited"
        "q \<in> set (dfs g goal m n (p @ [n]) (insert n visited))"
        by (subst (asm) dfs.simps) (auto split: if_splits)
      from "1.prems"(2) n(1) have "path_from_to g s n (p @ [n])"
        by (simp add: path_from_to_def path_in_snoc)
      from "1.IH" [OF len False n(1,2,3) this] show ?thesis .
    qed
  qed
qed

lemma get_all_paths_limited_sound:
  assumes "q \<in> set (get_all_paths_limited g a b m)"
  shows "path_from_to g a b q"
proof -
  from assms have "q \<in> set (dfs g b m a [a] {a})"
    by (simp add: get_all_paths_limited_def split: if_splits)
  moreover have "path_from_to g a a [a]" by (simp add: path_from_to_def)
  ultimately show ?thesis by (rule dfs_sound)
qed

text \<open>
  C1. For every graph and vertices \<open>a\<close>, \<open>b\<close> of it with \<open>b\<close> reachable from \<open>a\<close>,
  \<^verbatim>\<open>bfs_shortest_path(graph, a, b)\<close> returns a path of the graph from \<open>a\<close> to \<open>b\<close> with
  the least number of stations among all such paths; for \<open>a = b\<close> it is \<open>[a]\<close>; and it is
  no longer than any path that \<^verbatim>\<open>get_all_paths_limited(graph, a, b, max_length)\<close>
  returns, for every \<open>max_length\<close>.
\<close>

theorem bfs_shortest_path_minimal:
  assumes "in_graph g a" and "in_graph g b" and "\<exists>q. path_from_to g a b q"
  shows "\<exists>p. bfs_shortest_path g a b = Some p \<and> path_from_to g a b p
           \<and> (\<forall>q. path_from_to g a b q \<longrightarrow> length p \<le> length q)
           \<and> (a = b \<longrightarrow> p = [a])
           \<and> (\<forall>max_length. \<forall>q\<in>set (get_all_paths_limited g a b max_length).
                 length p \<le> length q)"
proof -
  from bfs_shortest_path_correct [OF assms] obtain p
    where p: "bfs_shortest_path g a b = Some p" "path_from_to g a b p"
      "\<forall>q. path_from_to g a b q \<longrightarrow> length p \<le> length q" by blast
  have "a = b \<longrightarrow> p = [a]" using p(1) by (auto simp: bfs_shortest_path_def)
  moreover have "\<forall>max_length. \<forall>q\<in>set (get_all_paths_limited g a b max_length).
                 length p \<le> length q"
    using p(3) get_all_paths_limited_sound by blast
  ultimately show ?thesis using p by blast
qed

lemma test_graph_bfs: "bfs_shortest_path test_graph ''A'' ''E'' = Some [''A'', ''C'', ''E'']"
  by code_simp

lemma test_graph_all_paths:
  "get_all_paths_limited test_graph ''A'' ''E'' 5
     = [[''A'', ''B'', ''D'', ''E''], [''A'', ''C'', ''E'']]"
  by code_simp

theorem bfs_shortest_path_minimal_witness:
  "in_graph test_graph ''A'' \<and> in_graph test_graph ''E''
   \<and> path_from_to test_graph ''A'' ''E'' [''A'', ''B'', ''D'', ''E'']
   \<and> bfs_shortest_path test_graph ''A'' ''E'' = Some [''A'', ''C'', ''E'']
   \<and> path_from_to test_graph ''A'' ''E'' [''A'', ''C'', ''E'']
   \<and> [''A'', ''B'', ''D'', ''E''] \<in> set (get_all_paths_limited test_graph ''A'' ''E'' 5)
   \<and> length [''A'', ''C'', ''E''] \<le> length [''A'', ''B'', ''D'', ''E'']"
proof -
  have a: "in_graph test_graph ''A''" and e: "in_graph test_graph ''E''"
    by (simp_all add: in_graph_def test_graph_def)
  have q: "path_from_to test_graph ''A'' ''E'' [''A'', ''B'', ''D'', ''E'']"
    by (simp add: path_from_to_def neighbors_def graph_get_def test_graph_def)
  then have r: "\<exists>q. path_from_to test_graph ''A'' ''E'' q" by blast
  from bfs_shortest_path_minimal [OF a e r] test_graph_bfs
  have "path_from_to test_graph ''A'' ''E'' [''A'', ''C'', ''E'']"
    and "\<forall>q. path_from_to test_graph ''A'' ''E'' q
          \<longrightarrow> length [''A'', ''C'', ''E''] \<le> length q"
    by auto
  with q have "path_from_to test_graph ''A'' ''E'' [''A'', ''C'', ''E'']"
    and "length [''A'', ''C'', ''E''] \<le> length [''A'', ''B'', ''D'', ''E'']"
    by blast+
  moreover have
    "[''A'', ''B'', ''D'', ''E''] \<in> set (get_all_paths_limited test_graph ''A'' ''E'' 5)"
    by (simp add: test_graph_all_paths)
  ultimately show ?thesis using a e q test_graph_bfs by blast
qed

section \<open>The shortest-distance search returns a least distance\<close>

lemma entry_le_fst: "(e :: entry) \<le> e' \<Longrightarrow> fst e \<le> fst e'"
  by (auto simp: less_eq_prod_def)

lemma heappop_props:
  assumes "pq \<noteq> []" and "heappop pq = (m, pq')"
  shows "m \<in> set pq" and "\<forall>e\<in>set pq. m \<le> e" and "set pq' \<subseteq> set pq"
    and "set pq \<subseteq> insert m (set pq')" and "length pq' < length pq"
proof -
  from assms(1) obtain x xs where pq: "pq = x # xs" by (cases pq) auto
  from assms(2) [unfolded pq heappop.simps Let_def]
  have "fold min xs x = m \<and> remove1 (fold min xs x) (x # xs) = pq'"
    by (metis prod.inject)
  then have m: "m = fold min xs x" and r: "pq' = remove1 m pq"
    unfolding pq by auto
  have mm: "m = Min (set pq)" unfolding m pq by (rule Min.set_eq_fold [symmetric])
  show 1: "m \<in> set pq" unfolding mm using assms(1) by (intro Min_in) simp_all
  show "\<forall>e\<in>set pq. m \<le> e" unfolding mm by simp
  show "set pq' \<subseteq> set pq" unfolding r by (rule set_remove1_subset)
  show "set pq \<subseteq> insert m (set pq')"
  proof
    fix e assume "e \<in> set pq"
    then show "e \<in> insert m (set pq')" unfolding r by (cases "e = m") simp_all
  qed
  show "length pq' < length pq" unfolding r using 1 assms(1)
    by (simp add: length_remove1)
qed

lemma relax_set:
  "set (relax d p seen items pq) =
     set pq \<union> {(d + edge_distance w, u, p @ [u]) | u w.
                 (u, w) \<in> set items
                 \<and> (case seen u of None \<Rightarrow> True | Some x \<Rightarrow> d + edge_distance w < x)}"
proof (induction items arbitrary: pq)
  case Nil
  then show ?case by simp
next
  case (Cons it items)
  obtain u w where it: "it = (u, w)" by (cases it)
  show ?case unfolding it
    by (simp add: Let_def Cons.IH heappush_def) blast
qed

lemma edge_weight_graph_get: "edge_weight g u v = map_of (graph_get g u) v"
  by (simp add: edge_weight_def graph_get_def split: option.splits)

lemma neighbor_item:
  assumes "v \<in> set (neighbors g u)"
  shows "(v, stored_weight g u v) \<in> set (graph_get g u)"
proof -
  from assms have "v \<in> fst ` set (graph_get g u)" by (simp add: neighbors_def)
  then obtain w where w: "map_of (graph_get g u) v = Some w"
    by (metis map_of_eq_None_iff not_None_eq)
  then have "stored_weight g u v = w"
    by (simp add: stored_weight_def edge_weight_graph_get)
  with w show ?thesis by (simp add: map_of_SomeD)
qed

lemma graph_get_in_graph:
  assumes "x \<in> set (graph_get g u)"
  shows "(u, graph_get g u) \<in> set g"
proof (cases "map_of g u")
  case None
  with assms show ?thesis by (simp add: graph_get_def)
next
  case (Some nbrs)
  then show ?thesis by (simp add: graph_get_def map_of_SomeD)
qed

lemma item_stored_weight:
  assumes "dict_graph g" and "(v, w) \<in> set (graph_get g u)"
  shows "stored_weight g u v = w"
proof -
  from graph_get_in_graph [OF assms(2)] assms(1)
  have "distinct (map fst (graph_get g u))" unfolding dict_graph_def by blast
  with assms(2) have "map_of (graph_get g u) v = Some w" by simp
  then show ?thesis by (simp add: stored_weight_def edge_weight_graph_get)
qed

lemma item_nonneg:
  assumes "nonneg_weights g" and "(v, w) \<in> set (graph_get g u)"
  shows "0 \<le> w" and "0 \<le> edge_distance w"
proof -
  from graph_get_in_graph [OF assms(2)] assms show "0 \<le> w"
    unfolding nonneg_weights_def by blast
  then show "0 \<le> edge_distance w" by (simp add: edge_distance_def)
qed

lemma path_distance_snoc:
  "p \<noteq> [] \<Longrightarrow>
   path_distance g (p @ [n]) = path_distance g p + edge_distance (stored_weight g (last p) n)"
  by (induction g p rule: path_distance.induct) simp_all

lemma path_weight_snoc:
  "p \<noteq> [] \<Longrightarrow> path_weight g (p @ [n]) = path_weight g p + stored_weight g (last p) n"
  by (induction g p rule: path_weight.induct) simp_all

lemma path_from_to_snoc:
  assumes "path_from_to g a v (r @ [x])" and "r \<noteq> []"
  shows "x = v" and "path_from_to g a (last r) r" and "v \<in> set (neighbors g (last r))"
  using assms by (auto simp: path_from_to_def path_in_snoc)

lemma path_from_to_extend:
  assumes "path_from_to g a n p" and "u \<in> set (neighbors g n)"
  shows "path_from_to g a u (p @ [u])"
  using assms by (auto simp: path_from_to_def path_in_snoc)

lemma path_end_vertex:
  assumes "path_from_to g a n p"
  shows "n \<in> insert a (all_neighbors g)"
proof (cases p rule: rev_cases)
  case Nil
  with assms show ?thesis by (simp add: path_from_to_def)
next
  case (snoc r x)
  show ?thesis
  proof (cases "r = []")
    case True
    with snoc assms show ?thesis by (auto simp: path_from_to_def)
  next
    case False
    from path_from_to_snoc [OF assms [unfolded snoc] False]
    have "n \<in> set (neighbors g (last r))" by simp
    with neighbors_subset show ?thesis by blast
  qed
qed

lemma frontier:
  assumes nn: "nonneg_weights g"
    and B: "\<forall>v dv. seen v = Some dv \<longrightarrow>
            (\<forall>q. path_from_to g start v q \<longrightarrow> dv \<le> path_distance g q)"
    and D: "\<forall>v dv u w. seen v = Some dv \<longrightarrow> (u, w) \<in> set (graph_get g v) \<longrightarrow>
            seen u \<noteq> None \<or> (\<exists>d p. (d, u, p) \<in> set pq \<and> d \<le> dv + edge_distance w)"
    and E: "seen start \<noteq> None \<or> (\<exists>d p. (d, start, p) \<in> set pq \<and> d \<le> 0)"
    and q: "path_from_to g start v q" and v: "seen v = None"
  shows "\<exists>d n p. (d, n, p) \<in> set pq \<and> d \<le> path_distance g q"
  using q v
proof (induction q arbitrary: v rule: rev_induct)
  case Nil
  then show ?case by (simp add: path_from_to_def)
next
  case (snoc x r)
  show ?case
  proof (cases "r = []")
    case True
    with snoc.prems have "v = start" by (auto simp: path_from_to_def)
    with snoc.prems(2) E obtain d p where "(d, start, p) \<in> set pq" "d \<le> 0" by auto
    with True show ?thesis by auto
  next
    case False
    from path_from_to_snoc [OF snoc.prems(1) False]
    have xv: "x = v" and r: "path_from_to g start (last r) r"
      and e: "v \<in> set (neighbors g (last r))" by simp_all
    let ?u = "last r"
    let ?w = "stored_weight g ?u v"
    have it: "(v, ?w) \<in> set (graph_get g ?u)" using e by (rule neighbor_item)
    have w0: "0 \<le> edge_distance ?w" using item_nonneg(2) [OF nn it] .
    have pd: "path_distance g (r @ [x]) = path_distance g r + edge_distance ?w"
      using path_distance_snoc [OF False] xv by simp
    show ?thesis
    proof (cases "seen ?u")
      case None
      from snoc.IH [OF r None] obtain d n p
        where "(d, n, p) \<in> set pq" "d \<le> path_distance g r" by blast
      with pd w0 show ?thesis by (intro exI [of _ d] exI [of _ n] exI [of _ p]) simp
    next
      case (Some du)
      with B r have du: "du \<le> path_distance g r" by blast
      from D Some it snoc.prems(2) obtain d p
        where "(d, v, p) \<in> set pq" "d \<le> du + edge_distance ?w" by blast
      with du pd show ?thesis by (intro exI [of _ d] exI [of _ v] exI [of _ p]) simp
    qed
  qed
qed


lemma dij_inv_entries:
  "dij_inv g start goal seen pq \<Longrightarrow> (d, n, p) \<in> set pq
     \<Longrightarrow> path_from_to g start n p \<and> d = path_distance g p"
  unfolding dij_inv_def by blast

lemma dij_inv_lower:
  "dij_inv g start goal seen pq \<Longrightarrow> seen v = Some dv \<Longrightarrow> path_from_to g start v q
     \<Longrightarrow> dv \<le> path_distance g q"
  unfolding dij_inv_def by blast

lemma dij_inv_mono:
  "dij_inv g start goal seen pq \<Longrightarrow> (d, n, p) \<in> set pq \<Longrightarrow> seen v = Some dv \<Longrightarrow> dv \<le> d"
  unfolding dij_inv_def by blast

lemma dij_inv_edges:
  "dij_inv g start goal seen pq \<Longrightarrow> seen v = Some dv \<Longrightarrow> (u, w) \<in> set (graph_get g v)
     \<Longrightarrow> seen u \<noteq> None \<or> (\<exists>d p. (d, u, p) \<in> set pq \<and> d \<le> dv + edge_distance w)"
  unfolding dij_inv_def by blast

lemma dij_inv_start:
  "dij_inv g start goal seen pq
     \<Longrightarrow> seen start \<noteq> None \<or> (\<exists>d p. (d, start, p) \<in> set pq \<and> d \<le> 0)"
  unfolding dij_inv_def by blast

lemma dij_inv_goal: "dij_inv g start goal seen pq \<Longrightarrow> seen goal = None"
  unfolding dij_inv_def by blast

lemma dij_invI:
  assumes "\<And>d n p. (d, n, p) \<in> set pq \<Longrightarrow> path_from_to g start n p \<and> d = path_distance g p"
    and "\<And>v dv q. seen v = Some dv \<Longrightarrow> path_from_to g start v q \<Longrightarrow> dv \<le> path_distance g q"
    and "\<And>d n p v dv. (d, n, p) \<in> set pq \<Longrightarrow> seen v = Some dv \<Longrightarrow> dv \<le> d"
    and "\<And>v dv u w. seen v = Some dv \<Longrightarrow> (u, w) \<in> set (graph_get g v)
      \<Longrightarrow> seen u \<noteq> None \<or> (\<exists>d p. (d, u, p) \<in> set pq \<and> d \<le> dv + edge_distance w)"
    and "seen start \<noteq> None \<or> (\<exists>d p. (d, start, p) \<in> set pq \<and> d \<le> 0)"
    and "seen goal = None"
  shows "dij_inv g start goal seen pq"
  unfolding dij_inv_def
proof (intro conjI allI impI)
  show "seen start \<noteq> None \<or> (\<exists>d p. (d, start, p) \<in> set pq \<and> d \<le> 0)" by (rule assms(5))
  show "seen goal = None" by (rule assms(6))
qed (use assms(1-4) in blast)+

lemma dij_inv_frontier:
  assumes nn: "nonneg_weights g" and inv: "dij_inv g start goal seen pq"
    and q: "path_from_to g start v q" and v: "seen v = None"
  shows "\<exists>d n p. (d, n, p) \<in> set pq \<and> d \<le> path_distance g q"
proof (rule frontier [where seen = seen and pq = pq, OF nn _ _ _ q v])
  show "\<forall>v dv. seen v = Some dv \<longrightarrow>
            (\<forall>q. path_from_to g start v q \<longrightarrow> dv \<le> path_distance g q)"
    using inv unfolding dij_inv_def by blast
  show "\<forall>v dv u w. seen v = Some dv \<longrightarrow> (u, w) \<in> set (graph_get g v) \<longrightarrow>
            seen u \<noteq> None \<or> (\<exists>d p. (d, u, p) \<in> set pq \<and> d \<le> dv + edge_distance w)"
    using inv unfolding dij_inv_def by blast
  show "seen start \<noteq> None \<or> (\<exists>d p. (d, start, p) \<in> set pq \<and> d \<le> 0)"
    using inv by (rule dij_inv_start)
qed

lemma pop_minimal:
  assumes nn: "nonneg_weights g" and inv: "dij_inv g start goal seen pq"
    and ne: "pq \<noteq> []" and pop: "heappop pq = ((d, n, p), pq')"
    and n: "seen n = None" and q: "path_from_to g start n q"
  shows "d \<le> path_distance g q"
proof -
  from dij_inv_frontier [OF nn inv q n] obtain d' n' p'
    where e: "(d', n', p') \<in> set pq" "d' \<le> path_distance g q" by blast
  from heappop_props(2) [OF ne pop] e(1) have "(d, n, p) \<le> (d', n', p')" by blast
  then have "d \<le> d'" using entry_le_fst by fastforce
  with e(2) show ?thesis by simp
qed

lemma inv_skip:
  assumes inv: "dij_inv g start goal seen pq"
    and ne: "pq \<noteq> []" and pop: "heappop pq = ((d, n, p), pq')"
    and n: "seen n \<noteq> None"
  shows "dij_inv g start goal seen pq'"
proof (rule dij_invI)
  note sub = heappop_props(3) [OF ne pop]
  note sup = heappop_props(4) [OF ne pop]
  show "path_from_to g start n' p' \<and> d' = path_distance g p'" if "(d', n', p') \<in> set pq'"
    for d' n' p' using that sub dij_inv_entries [OF inv] by blast
  show "dv \<le> path_distance g q" if "seen v = Some dv" "path_from_to g start v q" for v dv q
    using that dij_inv_lower [OF inv] by blast
  show "dv \<le> d'" if "(d', n', p') \<in> set pq'" "seen v = Some dv" for d' n' p' v dv
    using that sub dij_inv_mono [OF inv] by blast
  show "seen u \<noteq> None \<or> (\<exists>d p. (d, u, p) \<in> set pq' \<and> d \<le> dv + edge_distance w)"
    if "seen v = Some dv" "(u, w) \<in> set (graph_get g v)" for v dv u w
  proof (cases "seen u")
    case None
    with dij_inv_edges [OF inv that] obtain d0 p0
      where e: "(d0, u, p0) \<in> set pq" "d0 \<le> dv + edge_distance w" by blast
    from None n have "u \<noteq> n" by auto
    with e(1) sup have "(d0, u, p0) \<in> set pq'" by auto
    with e(2) show ?thesis by blast
  qed simp
  show "seen start \<noteq> None \<or> (\<exists>d p. (d, start, p) \<in> set pq' \<and> d \<le> 0)"
  proof (cases "seen start")
    case None
    with dij_inv_start [OF inv] obtain d0 p0
      where e: "(d0, start, p0) \<in> set pq" "d0 \<le> 0" by blast
    from None n have "start \<noteq> n" by auto
    with e(1) sup have "(d0, start, p0) \<in> set pq'" by auto
    with e(2) show ?thesis by blast
  qed simp
  show "seen goal = None" using inv by (rule dij_inv_goal)
qed

lemma inv_settle:
  assumes dg: "dict_graph g" and nn: "nonneg_weights g"
    and inv: "dij_inv g start goal seen pq"
    and ne: "pq \<noteq> []" and pop: "heappop pq = ((d, n, p), pq')"
    and n: "seen n = None" and ng: "n \<noteq> goal"
  shows "dij_inv g start goal (seen(n \<mapsto> d))
           (relax d p (seen(n \<mapsto> d)) (graph_get g n) pq')"
    (is "dij_inv g start goal ?seen ?pq")
proof (rule dij_invI)
  note mem = heappop_props(1) [OF ne pop]
  note least = heappop_props(2) [OF ne pop]
  note sub = heappop_props(3) [OF ne pop]
  note sup = heappop_props(4) [OF ne pop]
  from dij_inv_entries [OF inv mem]
  have pn: "path_from_to g start n p" and dp: "d = path_distance g p" by simp_all
  then have pne: "p \<noteq> []" and lastp: "last p = n" by (simp_all add: path_from_to_def)
  have split: "e \<in> set pq' \<or> (\<exists>u w. e = (d + edge_distance w, u, p @ [u])
      \<and> (u, w) \<in> set (graph_get g n)
      \<and> (case ?seen u of None \<Rightarrow> True | Some x \<Rightarrow> d + edge_distance w < x))"
    if "e \<in> set ?pq" for e
    using that unfolding relax_set by blast
  have old: "e \<in> set ?pq" if "e \<in> set pq'" for e
    using that unfolding relax_set by blast
  have d_le: "d \<le> d'" if "(d', n', p') \<in> set pq" for d' n' p'
  proof -
    from least that have "(d, n, p) \<le> (d', n', p')" by blast
    then show ?thesis using entry_le_fst by fastforce
  qed
  have seen_le: "dv \<le> d" if "seen v = Some dv" for v dv
    using dij_inv_mono [OF inv mem that] .
  show "path_from_to g start n' p' \<and> d' = path_distance g p'" if "(d', n', p') \<in> set ?pq"
    for d' n' p'
  proof -
    from split [OF that] show ?thesis
    proof
      assume "(d', n', p') \<in> set pq'"
      with sub dij_inv_entries [OF inv] show ?thesis by blast
    next
      assume "\<exists>u w. (d', n', p') = (d + edge_distance w, u, p @ [u])
        \<and> (u, w) \<in> set (graph_get g n)
        \<and> (case ?seen u of None \<Rightarrow> True | Some x \<Rightarrow> d + edge_distance w < x)"
      then obtain w where w: "d' = d + edge_distance w" "p' = p @ [n']"
        "(n', w) \<in> set (graph_get g n)" by auto
      from w(3) have "n' \<in> set (neighbors g n)" by (force simp: neighbors_def)
      with pn have 1: "path_from_to g start n' (p @ [n'])" by (rule path_from_to_extend)
      have "stored_weight g n n' = w" using dg w(3) by (rule item_stored_weight)
      then have "path_distance g (p @ [n']) = d + edge_distance w"
        using path_distance_snoc [OF pne, of g n'] lastp dp by simp
      with 1 w show ?thesis by simp
    qed
  qed
  show "dv \<le> path_distance g q" if "?seen v = Some dv" "path_from_to g start v q" for v dv q
  proof (cases "v = n")
    case True
    with that(1) have "dv = d" by simp
    with pop_minimal [OF nn inv ne pop n] that(2) True show ?thesis by simp
  next
    case False
    with that(1) have "seen v = Some dv" by simp
    from dij_inv_lower [OF inv this that(2)] show ?thesis .
  qed
  show "dv \<le> d'" if "(d', n', p') \<in> set ?pq" "?seen v = Some dv" for d' n' p' v dv
  proof -
    have dvd: "dv \<le> d"
    proof (cases "v = n")
      case True
      with that(2) show ?thesis by simp
    next
      case False
      with that(2) have "seen v = Some dv" by simp
      then show ?thesis by (rule seen_le)
    qed
    from split [OF that(1)] show ?thesis
    proof
      assume "(d', n', p') \<in> set pq'"
      with sub have "(d', n', p') \<in> set pq" by blast
      from d_le [OF this] dvd show ?thesis by simp
    next
      assume "\<exists>u w. (d', n', p') = (d + edge_distance w, u, p @ [u])
        \<and> (u, w) \<in> set (graph_get g n)
        \<and> (case ?seen u of None \<Rightarrow> True | Some x \<Rightarrow> d + edge_distance w < x)"
      then obtain w where w: "d' = d + edge_distance w" "(n', w) \<in> set (graph_get g n)"
        by auto
      from item_nonneg(2) [OF nn w(2)] w(1) dvd show ?thesis by simp
    qed
  qed
  show "?seen u \<noteq> None \<or> (\<exists>d' p'. (d', u, p') \<in> set ?pq \<and> d' \<le> dv + edge_distance w)"
    if "?seen v = Some dv" "(u, w) \<in> set (graph_get g v)" for v dv u w
  proof (cases "?seen u")
    case None
    then have un: "u \<noteq> n" and su: "seen u = None" by (auto split: if_splits)
    show ?thesis
    proof (cases "v = n")
      case True
      with that(1) have dv: "dv = d" by simp
      from that(2) True None have "(d + edge_distance w, u, p @ [u]) \<in> set ?pq"
        unfolding relax_set by auto
      with dv show ?thesis by blast
    next
      case False
      with that(1) have "seen v = Some dv" by simp
      from dij_inv_edges [OF inv this that(2)] su obtain d0 p0
        where e: "(d0, u, p0) \<in> set pq" "d0 \<le> dv + edge_distance w" by blast
      from e(1) sup un have "(d0, u, p0) \<in> set pq'" by auto
      from old [OF this] e(2) show ?thesis by blast
    qed
  qed simp
  show "?seen start \<noteq> None \<or> (\<exists>d' p'. (d', start, p') \<in> set ?pq \<and> d' \<le> 0)"
  proof (cases "?seen start")
    case None
    then have un: "start \<noteq> n" and su: "seen start = None" by (auto split: if_splits)
    from dij_inv_start [OF inv] su obtain d0 p0
      where e: "(d0, start, p0) \<in> set pq" "d0 \<le> 0" by blast
    from e(1) sup un have "(d0, start, p0) \<in> set pq'" by auto
    from old [OF this] e(2) show ?thesis by blast
  qed simp
  show "?seen goal = None" using dij_inv_goal [OF inv] ng by simp
qed


lemma dijkstra_loop_correct:
  assumes dg: "dict_graph g" and nn: "nonneg_weights g"
    and inv: "dij_inv g start goal seen pq"
  shows "\<exists>r. dijkstra_loop g goal seen pq = Some r \<and>
           (case r of
              None \<Rightarrow> \<not> (\<exists>q. path_from_to g start goal q)
            | Some (d, p) \<Rightarrow> path_from_to g start goal p \<and> d = path_distance g p
                \<and> (\<forall>q. path_from_to g start goal q \<longrightarrow> d \<le> path_distance g q))"
proof -
  define V where "V = insert start (all_neighbors g)"
  have finV: "finite V" unfolding V_def using finite_all_neighbors by simp
  define R where "R = inv_image (less_than <*lex*> less_than)
    (\<lambda>(seen :: station \<rightharpoonup> weight, pq :: entry list). (card (V - dom seen), length pq))"
  have wfR: "wf R" unfolding R_def by (intro wf_inv_image wf_lex_prod wf_less_than)
  from wfR inv show ?thesis
  proof (induction "(seen, pq)" arbitrary: seen pq rule: wf_induct_rule)
    case less
    note inv = less.prems
    show ?case
    proof (cases "pq = []")
      case True
      have "\<not> path_from_to g start goal q" for q
      proof
        assume "path_from_to g start goal q"
        from dij_inv_frontier [OF nn inv this dij_inv_goal [OF inv]] True
        show False by simp
      qed
      with True show ?thesis by (subst dijkstra_loop.simps) simp
    next
      case ne: False
      obtain d n p pq' where pop: "heappop pq = ((d, n, p), pq')"
        by (metis prod.exhaust)
      note mem = heappop_props(1) [OF ne pop]
      show ?thesis
      proof (cases "seen n")
        case (Some dv)
        from dij_inv_mono [OF inv mem Some] have skip: "dv \<le> d" .
        have "((seen, pq'), (seen, pq)) \<in> R"
          unfolding R_def using heappop_props(5) [OF ne pop] by simp
        moreover have "dij_inv g start goal seen pq'"
          using inv ne pop by (rule inv_skip) (simp add: Some)
        ultimately obtain r where r: "dijkstra_loop g goal seen pq' = Some r"
           "(case r of
              None \<Rightarrow> \<not> (\<exists>q. path_from_to g start goal q)
            | Some (d, p) \<Rightarrow> path_from_to g start goal p \<and> d = path_distance g p
                \<and> (\<forall>q. path_from_to g start goal q \<longrightarrow> d \<le> path_distance g q))"
          using less.hyps by blast
        have "dijkstra_loop g goal seen pq = dijkstra_loop g goal seen pq'"
          using ne pop Some skip by (subst dijkstra_loop.simps) simp
        with r show ?thesis by simp
      next
        case None
        show ?thesis
        proof (cases "n = goal")
          case True
          from dij_inv_entries [OF inv mem] True
          have "path_from_to g start goal p" "d = path_distance g p" by simp_all
          moreover have "\<forall>q. path_from_to g start goal q \<longrightarrow> d \<le> path_distance g q"
            using pop_minimal [OF nn inv ne pop None] True by blast
          moreover have "dijkstra_loop g goal seen pq = Some (Some (d, p))"
            using ne pop None True by (subst dijkstra_loop.simps) simp
          ultimately show ?thesis by simp
        next
          case False
          let ?seen = "seen(n \<mapsto> d)"
          let ?pq = "relax d p ?seen (graph_get g n) pq'"
          from dij_inv_entries [OF inv mem] have "path_from_to g start n p" by simp
          then have "n \<in> V" unfolding V_def by (rule path_end_vertex)
          with None have "n \<in> V - dom seen" by (simp add: domIff)
          moreover have "V - dom ?seen = (V - dom seen) - {n}" by auto
          moreover have "finite (V - dom seen)" using finV by simp
          ultimately have "card (V - dom ?seen) < card (V - dom seen)"
            by (metis card_Diff1_less)
          then have "((?seen, ?pq), (seen, pq)) \<in> R" unfolding R_def by simp
          moreover have "dij_inv g start goal ?seen ?pq"
            using dg nn inv ne pop None False by (rule inv_settle)
          ultimately obtain r where r: "dijkstra_loop g goal ?seen ?pq = Some r"
           "(case r of
              None \<Rightarrow> \<not> (\<exists>q. path_from_to g start goal q)
            | Some (d, p) \<Rightarrow> path_from_to g start goal p \<and> d = path_distance g p
                \<and> (\<forall>q. path_from_to g start goal q \<longrightarrow> d \<le> path_distance g q))"
            using less.hyps by blast
          have "dijkstra_loop g goal seen pq = dijkstra_loop g goal ?seen ?pq"
            using ne pop None False by (subst dijkstra_loop.simps) simp
          with r show ?thesis by simp
        qed
      qed
    qed
  qed
qed

lemma dij_inv_initial:
  assumes "start \<noteq> goal"
  shows "dij_inv g start goal Map.empty [(0, start, [start])]"
  using assms by (intro dij_invI) (auto simp: path_from_to_def)

lemma dijkstra_correct:
  assumes dg: "dict_graph g" and nn: "nonneg_weights g"
    and a: "in_graph g a" and b: "in_graph g b" and ab: "a \<noteq> b"
  shows "\<exists>r. dijkstra g a b = Some r \<and>
           (case r of
              None \<Rightarrow> \<not> (\<exists>q. path_from_to g a b q)
            | Some (d, p) \<Rightarrow> path_from_to g a b p \<and> d = path_distance g p
                \<and> (\<forall>q. path_from_to g a b q \<longrightarrow> d \<le> path_distance g q))"
proof -
  have "dijkstra g a b = dijkstra_loop g b Map.empty [(0, a, [a])]"
    using a b ab by (simp add: dijkstra_def)
  with dijkstra_loop_correct [OF dg nn dij_inv_initial [OF ab]] show ?thesis by simp
qed

section \<open>Positive weights, weights of zero and negative cycles\<close>

lemma positive_nonneg: "positive_weights g \<Longrightarrow> nonneg_weights g"
  unfolding positive_weights_def nonneg_weights_def by fastforce

lemma step_positive:
  assumes "positive_weights g" and "v \<in> set (neighbors g u)"
  shows "0 < stored_weight g u v"
proof -
  have it: "(v, stored_weight g u v) \<in> set (graph_get g u)" using assms(2) by (rule neighbor_item)
  from graph_get_in_graph [OF it] assms(1) it show ?thesis
    unfolding positive_weights_def by blast
qed

lemma step_nonneg:
  assumes "nonneg_weights g" and "v \<in> set (neighbors g u)"
  shows "0 \<le> stored_weight g u v"
  using item_nonneg(1) [OF assms(1) neighbor_item [OF assms(2)]] .

lemma path_distance_positive:
  assumes "positive_weights g" and "path_in g q"
  shows "path_distance g q = path_weight g q"
  using assms(2)
proof (induction q rule: induct_list012)
  case (3 u v vs)
  then have "v \<in> set (neighbors g u)" and "path_in g (v # vs)" by simp_all
  with 3 step_positive [OF assms(1), of v u] show ?case by (simp add: edge_distance_def)
qed simp_all

lemma path_distance_zero_edges:
  "path_distance g q = path_weight g q + real (zero_edges g q)"
  by (induction q rule: induct_list012) (simp_all add: edge_distance_def)

lemma path_weight_nonneg:
  assumes "nonneg_weights g" and "path_in g q"
  shows "0 \<le> path_weight g q"
  using assms(2)
proof (induction q rule: induct_list012)
  case (3 u v vs)
  then have "v \<in> set (neighbors g u)" and "path_in g (v # vs)" by simp_all
  with 3 step_nonneg [OF assms(1), of v u] show ?case by simp
qed simp_all

text \<open>
  C2. For every graph (a dictionary of dictionaries) whose weights are all strictly
  positive and vertices \<open>a\<close>, \<open>b\<close> of it: when \<open>a = b\<close>, \<^verbatim>\<open>dijkstra\<close> returns
  \<open>(0.0, [a])\<close>; when \<open>b\<close> is reachable from \<open>a\<close>, the loop ends and returns a pair
  \<open>(d, p)\<close> where \<open>p\<close> is a path of the graph from \<open>a\<close> to \<open>b\<close>, \<open>d\<close> is the sum of the
  stored weights along \<open>p\<close>, and no path from \<open>a\<close> to \<open>b\<close> has a smaller sum; and when
  \<open>b\<close> is unreachable, it ends and returns \<^verbatim>\<open>None\<close>.
\<close>

theorem dijkstra_shortest:
  assumes dg: "dict_graph g" and pw: "positive_weights g"
    and a: "in_graph g a" and b: "in_graph g b"
  shows "(a = b \<longrightarrow> dijkstra g a b = Some (Some (0, [a])))
    \<and> ((\<exists>q. path_from_to g a b q) \<longrightarrow>
          (\<exists>d p. dijkstra g a b = Some (Some (d, p)) \<and> path_from_to g a b p
             \<and> d = path_weight g p
             \<and> (\<forall>q. path_from_to g a b q \<longrightarrow> d \<le> path_weight g q)))
    \<and> (\<not> (\<exists>q. path_from_to g a b q) \<longrightarrow> dijkstra g a b = Some None)"
proof (cases "a = b")
  case True
  have nn: "nonneg_weights g" using pw by (rule positive_nonneg)
  have 1: "dijkstra g a b = Some (Some (0, [a]))" using True by (simp add: dijkstra_def)
  have 2: "path_from_to g a b [a]" using True by (simp add: path_from_to_def)
  have 3: "\<forall>q. path_from_to g a b q \<longrightarrow> 0 \<le> path_weight g q"
    using path_weight_nonneg [OF nn] by (simp add: path_from_to_def)
  from 1 2 3 show ?thesis by auto
next
  case False
  have nn: "nonneg_weights g" using pw by (rule positive_nonneg)
  have eq: "path_distance g q = path_weight g q" if "path_from_to g a b q" for q
    using that path_distance_positive [OF pw] by (simp add: path_from_to_def)
  from dijkstra_correct [OF dg nn a b False] obtain r
    where r: "dijkstra g a b = Some r"
      "case r of
              None \<Rightarrow> \<not> (\<exists>q. path_from_to g a b q)
            | Some (d, p) \<Rightarrow> path_from_to g a b p \<and> d = path_distance g p
                \<and> (\<forall>q. path_from_to g a b q \<longrightarrow> d \<le> path_distance g q)"
    by blast
  show ?thesis
  proof (cases r)
    case None
    with r False show ?thesis by simp
  next
    case (Some dp)
    obtain d p where dp: "dp = (d, p)" by (cases dp)
    with Some r(2) have p: "path_from_to g a b p" "d = path_distance g p"
      "\<forall>q. path_from_to g a b q \<longrightarrow> d \<le> path_distance g q" by auto
    from p(1,2) eq have "d = path_weight g p" by simp
    moreover from p(3) eq have "\<forall>q. path_from_to g a b q \<longrightarrow> d \<le> path_weight g q" by simp
    ultimately show ?thesis using r(1) Some dp p(1) False by auto
  qed
qed

lemma test_graph_dijkstra:
  "dijkstra test_graph ''A'' ''E'' = Some (Some (3.6, [''A'', ''B'', ''D'', ''E'']))"
  by code_simp

lemma test_graph_dict: "dict_graph test_graph"
  by (simp add: dict_graph_def test_graph_def)

lemma test_graph_positive: "positive_weights test_graph"
  by (simp add: positive_weights_def test_graph_def)

theorem dijkstra_shortest_witness:
  "dict_graph test_graph \<and> positive_weights test_graph
   \<and> in_graph test_graph ''A'' \<and> in_graph test_graph ''E''
   \<and> path_from_to test_graph ''A'' ''E'' [''A'', ''C'', ''E'']
   \<and> dijkstra test_graph ''A'' ''E'' = Some (Some (3.6, [''A'', ''B'', ''D'', ''E'']))
   \<and> path_weight test_graph [''A'', ''B'', ''D'', ''E''] = 3.6
   \<and> 3.6 \<le> path_weight test_graph [''A'', ''C'', ''E'']"
proof -
  have a: "in_graph test_graph ''A''" and e: "in_graph test_graph ''E''"
    by (simp_all add: in_graph_def test_graph_def)
  have q: "path_from_to test_graph ''A'' ''E'' [''A'', ''C'', ''E'']"
    by (simp add: path_from_to_def neighbors_def graph_get_def test_graph_def)
  from dijkstra_shortest [OF test_graph_dict test_graph_positive a e] q test_graph_dijkstra
  have "path_weight test_graph [''A'', ''B'', ''D'', ''E''] = 3.6"
    and "\<forall>q. path_from_to test_graph ''A'' ''E'' q \<longrightarrow> 3.6 \<le> path_weight test_graph q"
    by auto
  with q have "path_weight test_graph [''A'', ''B'', ''D'', ''E''] = 3.6"
    and "3.6 \<le> path_weight test_graph [''A'', ''C'', ''E'']" by blast+
  with test_graph_dict test_graph_positive a e q test_graph_dijkstra show ?thesis by blast
qed

lemma edge_is_path:
  assumes "edge_weight g a b = Some w"
  shows "path_from_to g a b [a, b]"
proof -
  from assms have "map_of (graph_get g a) b = Some w" by (simp add: edge_weight_graph_get)
  then have "(b, w) \<in> set (graph_get g a)" by (rule map_of_SomeD)
  then have "b \<in> set (neighbors g a)" by (force simp: neighbors_def)
  then show ?thesis by (simp add: path_from_to_def)
qed

lemma path_distance_nonneg:
  assumes "nonneg_weights g" and "path_in g q"
  shows "0 \<le> path_distance g q"
  using path_weight_nonneg [OF assms] by (simp add: path_distance_zero_edges)

lemma path_distance_append:
  "path_distance g (xs @ v # ys) = path_distance g (xs @ [v]) + path_distance g (v # ys)"
  by (induction xs rule: induct_list012) simp_all

lemma path_in_append:
  "path_in g (xs @ v # ys) \<longleftrightarrow> path_in g (xs @ [v]) \<and> path_in g (v # ys)"
  by (induction xs rule: induct_list012) auto

lemma cut_cycle:
  assumes nn: "nonneg_weights g" and p: "path_in g (xs @ v # ys @ v # zs)"
  shows "path_in g (xs @ v # zs)"
    and "path_distance g (xs @ v # zs) \<le> path_distance g (xs @ v # ys @ v # zs)"
proof -
  from p have 1: "path_in g (xs @ [v])" and 2: "path_in g (v # ys @ v # zs)"
    using path_in_append [of g xs v "ys @ v # zs"] by simp_all
  from 2 have 3: "path_in g ((v # ys) @ [v])" and 4: "path_in g (v # zs)"
    using path_in_append [of g "v # ys" v zs] by simp_all
  from 1 4 show "path_in g (xs @ v # zs)" by (simp add: path_in_append [of g xs v zs])
  have "path_distance g (xs @ v # ys @ v # zs)
      = path_distance g (xs @ [v]) + path_distance g (v # ys @ v # zs)"
    by (rule path_distance_append)
  also have "path_distance g (v # ys @ v # zs)
      = path_distance g ((v # ys) @ [v]) + path_distance g (v # zs)"
    using path_distance_append [of g "v # ys" v zs] by simp
  finally have "path_distance g (xs @ v # ys @ v # zs)
      = path_distance g (xs @ v # zs) + path_distance g ((v # ys) @ [v])"
    by (simp add: path_distance_append [of g xs v zs])
  with path_distance_nonneg [OF nn 3]
  show "path_distance g (xs @ v # zs) \<le> path_distance g (xs @ v # ys @ v # zs)" by simp
qed

lemma simple_path_below:
  assumes nn: "nonneg_weights g" and q: "path_from_to g a b q"
  shows "\<exists>q'. path_from_to g a b q' \<and> distinct q' \<and> path_distance g q' \<le> path_distance g q"
  using q
proof (induction "length q" arbitrary: q rule: less_induct)
  case less
  show ?case
  proof (cases "distinct q")
    case True
    with less.prems show ?thesis by (intro exI [of _ q]) simp
  next
    case False
    then obtain xs v ys zs where d: "q = xs @ [v] @ ys @ [v] @ zs"
      using not_distinct_decomp by blast
    let ?r = "xs @ v # zs"
    from less.prems have pq: "path_in g q" "hd q = a" "last q = b"
      by (simp_all add: path_from_to_def)
    from pq(1) d have "path_in g (xs @ v # ys @ v # zs)" by simp
    from cut_cycle [OF nn this] d
    have r1: "path_in g ?r" and r2: "path_distance g ?r \<le> path_distance g q" by simp_all
    have "hd ?r = hd q" unfolding d by (cases xs) simp_all
    moreover have "last ?r = last q" unfolding d by simp
    ultimately have r: "path_from_to g a b ?r" using r1 pq by (simp add: path_from_to_def)
    have "length ?r < length q" unfolding d by simp
    from less.hyps [OF this r] obtain q' where "path_from_to g a b q'" "distinct q'"
      "path_distance g q' \<le> path_distance g ?r" by blast
    with r2 show ?thesis by (intro exI [of _ q']) simp
  qed
qed

text \<open>
  C10 (as the code has it). For every graph (a dictionary of dictionaries) whose weights
  are not negative and distinct vertices \<open>a\<close>, \<open>b\<close> of it joined by an edge of weight 0,
  with no other simple path from \<open>a\<close> to \<open>b\<close> of total stored weight below 1,
  \<^verbatim>\<open>dijkstra(graph, a, b)\<close> ends and returns the total distance 1, not 0. The total it
  returns is the sum of the stored weights along the returned path plus the number of
  its edges of weight 0, so it is the true sum only when no traversed edge has weight 0.
\<close>

theorem dijkstra_zero_weight:
  assumes dg: "dict_graph g" and nn: "nonneg_weights g"
    and a: "in_graph g a" and b: "in_graph g b" and ab: "a \<noteq> b"
    and e: "edge_weight g a b = Some 0"
    and other: "\<not> (\<exists>q. path_from_to g a b q \<and> distinct q \<and> q \<noteq> [a, b]
                      \<and> path_weight g q < 1)"
  shows "\<exists>p. dijkstra g a b = Some (Some (1, p)) \<and> path_from_to g a b p
           \<and> path_weight g p + real (zero_edges g p) = 1"
proof -
  have ab_path: "path_from_to g a b [a, b]" using e by (rule edge_is_path)
  have ab_dist: "path_distance g [a, b] = 1"
    using e by (simp add: stored_weight_def edge_distance_def)
  from dijkstra_correct [OF dg nn a b ab] obtain r
    where r: "dijkstra g a b = Some r"
      "case r of
              None \<Rightarrow> \<not> (\<exists>q. path_from_to g a b q)
            | Some (d, p) \<Rightarrow> path_from_to g a b p \<and> d = path_distance g p
                \<and> (\<forall>q. path_from_to g a b q \<longrightarrow> d \<le> path_distance g q)"
    by blast
  from r(2) ab_path obtain d p where dp: "r = Some (d, p)"
    by (cases r) auto
  with r(2) have p: "path_from_to g a b p" "d = path_distance g p"
    "\<forall>q. path_from_to g a b q \<longrightarrow> d \<le> path_distance g q" by auto
  from p(3) ab_path ab_dist have le: "d \<le> 1" by fastforce
  from simple_path_below [OF nn p(1)] obtain p'
    where p': "path_from_to g a b p'" "distinct p'" "path_distance g p' \<le> d"
    using p(2) by blast
  have "1 \<le> path_distance g p'"
  proof (cases "p' = [a, b]")
    case True
    with ab_dist show ?thesis by simp
  next
    case False
    with other p'(1,2) have "1 \<le> path_weight g p'" by fastforce
    then show ?thesis by (simp add: path_distance_zero_edges)
  qed
  with p'(3) le have "d = 1" by simp
  with r(1) dp p(1,2) show ?thesis by (simp add: path_distance_zero_edges)
qed

lemma zero_edge_graph_simple_paths:
  assumes "path_from_to zero_edge_graph ''A'' ''B'' q" and "distinct q"
  shows "q = [''A'', ''B''] \<or> q = [''A'', ''C'', ''B'']"
proof -
  have nA: "set (neighbors zero_edge_graph ''A'') = {''B'', ''C''}"
    and nB: "set (neighbors zero_edge_graph ''B'') = {''A'', ''C''}"
    and nC: "set (neighbors zero_edge_graph ''C'') = {''A'', ''B''}"
    by (simp_all add: neighbors_def graph_get_def zero_edge_graph_def)
  from assms(1) obtain r where q: "q = ''A'' # r" and l: "last q = ''B''"
    and p: "path_in zero_edge_graph q"
    by (cases q) (auto simp: path_from_to_def)
  show ?thesis
  proof (cases r)
    case Nil
    with q l show ?thesis by simp
  next
    case (Cons x r1)
    with q p nA have x: "x = ''B'' \<or> x = ''C''" by auto
    show ?thesis
    proof (cases r1)
      case Nil
      with Cons q l show ?thesis by simp
    next
      case r1: (Cons y r2)
      show ?thesis
      proof (cases r2)
        case Nil
        with r1 Cons q l p x assms(2) nB nC show ?thesis by auto
      next
        case r2: (Cons z r3)
        from x show ?thesis
        proof
          assume xb: "x = ''B''"
          with r1 Cons q p nB have "y = ''A'' \<or> y = ''C''" by auto
          with r1 Cons q assms(2) have yc: "y = ''C''" by auto
          with r2 r1 Cons q p nC have "z = ''A'' \<or> z = ''B''" by auto
          with r2 r1 Cons q xb assms(2) show ?thesis by auto
        next
          assume xc: "x = ''C''"
          with r1 Cons q p nC have "y = ''A'' \<or> y = ''B''" by auto
          with r1 Cons q assms(2) have yb: "y = ''B''" by auto
          with r2 r1 Cons q p nB have "z = ''A'' \<or> z = ''C''" by auto
          with r2 r1 Cons q xc assms(2) show ?thesis by auto
        qed
      qed
    qed
  qed
qed

lemma zero_edge_graph_dijkstra:
  "dijkstra zero_edge_graph ''A'' ''B'' = Some (Some (1, [''A'', ''B'']))"
  by code_simp


lemma zero_edge_graph_props:
  "dict_graph zero_edge_graph" "nonneg_weights zero_edge_graph"
  "in_graph zero_edge_graph ''A''" "in_graph zero_edge_graph ''B''"
  "edge_weight zero_edge_graph ''A'' ''B'' = Some 0"
  by (simp_all add: dict_graph_def nonneg_weights_def in_graph_def edge_weight_def
      zero_edge_graph_def)

lemma zero_edge_graph_other:
  "\<not> (\<exists>q. path_from_to zero_edge_graph ''A'' ''B'' q \<and> distinct q \<and> q \<noteq> [''A'', ''B'']
          \<and> path_weight zero_edge_graph q < 1)"
proof
  assume "\<exists>q. path_from_to zero_edge_graph ''A'' ''B'' q \<and> distinct q \<and> q \<noteq> [''A'', ''B'']
          \<and> path_weight zero_edge_graph q < 1"
  then obtain q where q: "path_from_to zero_edge_graph ''A'' ''B'' q" "distinct q"
    "q \<noteq> [''A'', ''B'']" "path_weight zero_edge_graph q < 1" by blast
  from zero_edge_graph_simple_paths [OF q(1,2)] q(3) have "q = [''A'', ''C'', ''B'']" by simp
  moreover have "path_weight zero_edge_graph [''A'', ''C'', ''B''] = 2.9"
    by (simp add: stored_weight_def edge_weight_def zero_edge_graph_def)
  ultimately show False using q(4) by simp
qed

theorem dijkstra_zero_weight_witness:
  "dict_graph zero_edge_graph \<and> nonneg_weights zero_edge_graph
   \<and> in_graph zero_edge_graph ''A'' \<and> in_graph zero_edge_graph ''B'' \<and> ''A'' \<noteq> ''B''
   \<and> edge_weight zero_edge_graph ''A'' ''B'' = Some 0
   \<and> \<not> (\<exists>q. path_from_to zero_edge_graph ''A'' ''B'' q \<and> distinct q \<and> q \<noteq> [''A'', ''B'']
          \<and> path_weight zero_edge_graph q < 1)
   \<and> dijkstra zero_edge_graph ''A'' ''B'' = Some (Some (1, [''A'', ''B'']))
   \<and> path_weight zero_edge_graph [''A'', ''B'']
        + real (zero_edges zero_edge_graph [''A'', ''B'']) = 1"
proof -
  have ne: "''A'' \<noteq> ''B''" by simp
  from dijkstra_zero_weight [OF zero_edge_graph_props(1-4) ne zero_edge_graph_props(5)
      zero_edge_graph_other] zero_edge_graph_dijkstra
  have "path_weight zero_edge_graph [''A'', ''B'']
        + real (zero_edges zero_edge_graph [''A'', ''B'']) = 1"
    by auto
  with zero_edge_graph_props zero_edge_graph_other zero_edge_graph_dijkstra ne
  show ?thesis by blast
qed

text \<open>
  Without the bound on the weights the claim C10 fails. In \<open>negative_cycle_graph\<close> the
  vertices "A" and "B" are joined by an edge of weight 0 and \<open>["A", "B"]\<close> is the only
  path from "A" to "B", but "A" also leads to "C", which has an edge of weight \<open>-1\<close> to
  itself: every iteration records a smaller distance for "C" and queues a smaller one
  again, the entry of "B" is never the least, and the loop does not end.
\<close>

lemma cycle_step:
  "(if cycle_queue k = [] then Some None
      else case heappop (cycle_queue k) of
           ((distance, node, p), pq') \<Rightarrow>
             if case cycle_seen k node of None \<Rightarrow> False | Some d \<Rightarrow> d \<le> distance
             then f negative_cycle_graph ''B'' (cycle_seen k) pq'
             else if node = ''B'' then Some (Some (distance, p))
                  else f negative_cycle_graph ''B'' ((cycle_seen k)(node \<mapsto> distance))
                        (relax distance p ((cycle_seen k)(node \<mapsto> distance))
                          (graph_get negative_cycle_graph node) pq'))
   = f negative_cycle_graph ''B'' (cycle_seen (Suc k)) (cycle_queue (Suc k))"
proof -
  let ?e1 = "(1 :: real, ''B'', [''A'', ''B''])"
  let ?e2 = "(- real k - 1, ''C'', ''A'' # replicate (Suc k) ''C'')"
  have lt: "?e2 < ?e1" by (simp add: less_prod_def)
  then have "min ?e2 ?e1 = ?e2" by (simp add: min_def)
  moreover have "?e1 \<noteq> ?e2" by simp
  ultimately have pop: "heappop (cycle_queue k) = (?e2, [?e1])"
    by (simp add: cycle_queue_def)
  have "- real k - 1 = - real (Suc k)" by simp
  then have seen: "(cycle_seen k)(''C'' \<mapsto> - real k - 1) = cycle_seen (Suc k)"
    unfolding cycle_seen_def by (simp only: fun_upd_upd)
  have sc: "cycle_seen k ''C'' = Some (- real k)" "cycle_seen (Suc k) ''C'' = Some (- real k - 1)"
    by (simp_all add: cycle_seen_def)
  have gg: "graph_get negative_cycle_graph ''C'' = [(''C'', - 1)]"
    by (simp add: graph_get_def negative_cycle_graph_def)
  have rep: "replicate k ''C'' @ [''C''] = ''C'' # replicate k ''C''"
    by (rule replicate_append_same)
  have rel: "relax (- real k - 1) (''A'' # replicate (Suc k) ''C'') (cycle_seen (Suc k))
        [(''C'', - 1)] [?e1] = cycle_queue (Suc k)"
    using rep by (simp add: sc edge_distance_def heappush_def cycle_queue_def)
  have ne: "cycle_queue k \<noteq> []" by (simp add: cycle_queue_def)
  show ?thesis unfolding pop using ne
    by (simp add: sc seen gg rep edge_distance_def heappush_def cycle_queue_def)
qed

lemma cycle_diverges:
  "dijkstra_loop negative_cycle_graph ''B'' (cycle_seen n) (cycle_queue n) = None"
proof -
  have "\<not> (g = negative_cycle_graph \<and> goal = ''B''
          \<and> (\<exists>k. seen = cycle_seen k \<and> pq = cycle_queue k))"
    if run: "dijkstra_loop g goal seen pq = Some y" for g goal seen pq y
  proof (rule dijkstra_loop.raw_induct [OF _ run], goal_cases)
    case (1 f g goal seen pq y)
    show ?case
    proof
      assume "g = negative_cycle_graph \<and> goal = ''B''
          \<and> (\<exists>k. seen = cycle_seen k \<and> pq = cycle_queue k)"
      then obtain k where k: "g = negative_cycle_graph" "goal = ''B''"
        "seen = cycle_seen k" "pq = cycle_queue k" by blast
      from 1(2) [unfolded k cycle_step]
      have "f negative_cycle_graph ''B'' (cycle_seen (Suc k)) (cycle_queue (Suc k)) = Some y" .
      from 1(1) [OF this] show False by blast
    qed
  qed
  then have "dijkstra_loop negative_cycle_graph ''B'' (cycle_seen n) (cycle_queue n) \<noteq> Some y"
    for y by blast
  then show ?thesis
    by (cases "dijkstra_loop negative_cycle_graph ''B'' (cycle_seen n) (cycle_queue n)") auto
qed

lemma negative_cycle_run:
  "dijkstra_loop negative_cycle_graph ''B'' Map.empty [(0, ''A'', [''A''])]
     = dijkstra_loop negative_cycle_graph ''B'' (cycle_seen 1) (cycle_queue 1)"
proof -
  let ?e1 = "(1 :: real, ''B'', [''A'', ''B''])"
  let ?e2 = "(- 1 :: real, ''C'', [''A'', ''C''])"
  have gA: "graph_get negative_cycle_graph ''A'' = [(''B'', 0), (''C'', - 1)]"
    and gC: "graph_get negative_cycle_graph ''C'' = [(''C'', - 1)]"
    by (simp_all add: graph_get_def negative_cycle_graph_def)
  have "dijkstra_loop negative_cycle_graph ''B'' Map.empty [(0, ''A'', [''A''])]
      = dijkstra_loop negative_cycle_graph ''B'' [''A'' \<mapsto> 0] [?e1, ?e2]"
    by (subst dijkstra_loop.simps) (simp add: gA edge_distance_def heappush_def)
  also have "\<dots> = dijkstra_loop negative_cycle_graph ''B'' [''A'' \<mapsto> 0, ''C'' \<mapsto> - 1]
      [?e1, (- 2, ''C'', [''A'', ''C'', ''C''])]"
  proof -
    have "?e2 < ?e1" by (simp add: less_prod_def)
    then have "min ?e2 ?e1 = ?e2" by (simp add: min_def)
    then have pop: "heappop [?e1, ?e2] = (?e2, [?e1])" by simp
    show ?thesis
      by (subst dijkstra_loop.simps) (simp add: pop gC edge_distance_def heappush_def)
  qed
  also have "[''A'' \<mapsto> 0, ''C'' \<mapsto> - 1] = cycle_seen 1" by (simp add: cycle_seen_def)
  also have "[?e1, (- 2, ''C'', [''A'', ''C'', ''C''])] = cycle_queue 1"
    by (simp add: cycle_queue_def)
  finally show ?thesis .
qed

lemma negative_cycle_only_path:
  assumes "path_from_to negative_cycle_graph ''A'' ''B'' q"
  shows "q = [''A'', ''B'']"
proof -
  have nA: "set (neighbors negative_cycle_graph ''A'') = {''B'', ''C''}"
    and nB: "set (neighbors negative_cycle_graph ''B'') = {}"
    and nC: "set (neighbors negative_cycle_graph ''C'') = {''C''}"
    by (simp_all add: neighbors_def graph_get_def negative_cycle_graph_def)
  have stay: "last (''C'' # vs) = ''C''" if "path_in negative_cycle_graph (''C'' # vs)" for vs
    using that
  proof (induction vs)
    case (Cons v vs)
    then have "v = ''C''" using nC by simp
    with Cons show ?case by simp
  qed simp
  from assms obtain r where q: "q = ''A'' # r" and l: "last q = ''B''"
    and p: "path_in negative_cycle_graph q"
    by (cases q) (auto simp: path_from_to_def)
  show ?thesis
  proof (cases r)
    case Nil
    with q l show ?thesis by simp
  next
    case (Cons x r1)
    with q p nA have x: "x = ''B'' \<or> x = ''C''" and p1: "path_in negative_cycle_graph (x # r1)"
      by auto
    from x show ?thesis
    proof
      assume xb: "x = ''B''"
      show ?thesis
      proof (cases r1)
        case Nil
        with xb Cons q show ?thesis by simp
      next
        case r1: (Cons y r2)
        with p1 xb nB show ?thesis by simp
      qed
    next
      assume xc: "x = ''C''"
      with stay p1 have "last (x # r1) = ''C''" by blast
      with q Cons l show ?thesis by simp
    qed
  qed
qed

theorem dijkstra_negative_cycle_counterexample:
  "in_graph negative_cycle_graph ''A'' \<and> in_graph negative_cycle_graph ''B'' \<and> ''A'' \<noteq> ''B''
   \<and> edge_weight negative_cycle_graph ''A'' ''B'' = Some 0
   \<and> \<not> (\<exists>q. path_from_to negative_cycle_graph ''A'' ''B'' q \<and> q \<noteq> [''A'', ''B''])
   \<and> dijkstra negative_cycle_graph ''A'' ''B'' = None"
proof -
  have a: "in_graph negative_cycle_graph ''A''" and b: "in_graph negative_cycle_graph ''B''"
    and e: "edge_weight negative_cycle_graph ''A'' ''B'' = Some 0"
    by (simp_all add: in_graph_def edge_weight_def negative_cycle_graph_def)
  have ne: "''A'' \<noteq> ''B''" by simp
  have o: "\<not> (\<exists>q. path_from_to negative_cycle_graph ''A'' ''B'' q \<and> q \<noteq> [''A'', ''B''])"
    using negative_cycle_only_path by blast
  have "dijkstra negative_cycle_graph ''A'' ''B''
      = dijkstra_loop negative_cycle_graph ''B'' Map.empty [(0, ''A'', [''A''])]"
    using a b by (simp add: dijkstra_def)
  also have "\<dots> = None" unfolding negative_cycle_run by (rule cycle_diverges)
  finally have "dijkstra negative_cycle_graph ''A'' ''B'' = None" .
  with a b ne e o show ?thesis by blast
qed

end
